theory Spec2Isabelle
  imports Main "HOL-Library.AList"
begin

section \<open>The tile cache of we.texturing.TileCache\<close>

text \<open>
  The cache of \<^verbatim>\<open>we.texturing.TileCache\<close> keeps Tile objects in a
  \<^verbatim>\<open>goog.structs.Map\<close> from keys to tiles and in the array
  \<^verbatim>\<open>loadRequests_\<close> of tiles that wait for a load. Both containers hold
  references to the same mutable objects, so the model has an explicit store of tiles:
  an address is a natural number, \<open>tiles\<close> maps every address to the object found there
  and \<open>nalloc\<close> counts the objects created so far (the addresses below it are in use).
  Times are JavaScript numbers holding millisecond timestamps; they are integers here.
\<close>

subsection \<open>Tiles\<close>

text \<open>
  Modelled from the spec: the class \<^verbatim>\<open>we.texturing.Tile\<close> and its enumeration
  \<^verbatim>\<open>we.texturing.Tile.State\<close> are required by the cache but their file is not part of
  the sources. The spec gives a tile the attributes zoom, x, y, a state out of Preparing,
  Loading, Loaded and Error, the requestTime and an opaque payload; a new tile is in state
  Preparing; the key is derived from (zoom, x, y) and is collision-free; disposing a tile
  releases its payload. The fields \<open>tx\<close> and \<open>ty\<close> are the source's \<^verbatim>\<open>x\<close> and
  \<^verbatim>\<open>y\<close>.
\<close>

datatype State = ERROR | PREPARING | LOADING | LOADED

type_synonym key = "int \<times> int \<times> int"

record Tile =
  zoom :: int
  tx :: int
  ty :: int
  requestTime :: int
  state :: State
  image :: "nat option"

text \<open>
  Modelled from the spec: \<^verbatim>\<open>we.texturing.Tile.createKey\<close>, a stable and collision-free
  key made of zoom, x and y.
\<close>

definition createKey :: "int \<Rightarrow> int \<Rightarrow> int \<Rightarrow> key" where
  "createKey z x y = (z, x, y)"

text \<open>Modelled from the spec: \<^verbatim>\<open>getKey\<close>, the key of the tile's own coordinates.\<close>

definition getKey :: "Tile \<Rightarrow> key" where
  "getKey t = createKey (zoom t) (tx t) (ty t)"

text \<open>
  Modelled from the spec: the constructor of \<^verbatim>\<open>we.texturing.Tile\<close>; a new tile is in
  state Preparing and has no payload.
\<close>

definition new_Tile :: "int \<Rightarrow> int \<Rightarrow> int \<Rightarrow> int \<Rightarrow> Tile" where
  "new_Tile z x y rt =
     \<lparr>zoom = z, tx = x, ty = y, requestTime = rt, state = PREPARING, image = None\<rparr>"

text \<open>Modelled from the spec: \<^verbatim>\<open>dispose\<close> releases the payload of the tile.\<close>

definition dispose :: "Tile \<Rightarrow> Tile" where
  "dispose t = t\<lparr>image := None\<rparr>"

subsection \<open>The tile provider\<close>

text \<open>
  Modelled from the spec: \<^verbatim>\<open>we.texturing.TileProvider\<close> is an external collaborator
  whose file is not part of the sources. The cache reads its counter of loads in flight
  (\<^verbatim>\<open>loadingTileCounter\<close>) and calls \<^verbatim>\<open>loadTile(tile)\<close>, which answers whether the
  provider took the tile. A provider is an object with a private state \<open>pstate\<close> of any
  type, a way to read the counter from it and a transition \<open>loadFn\<close> that, given the private
  state and the tile offered, answers and moves to the next private state. By the spec's
  state machine a tile whose dispatch succeeds becomes Loading; a declined tile is left
  as it is.
\<close>

record 'p TileProvider =
  pstate :: 'p
  counterOf :: "'p \<Rightarrow> int"
  loadFn :: "'p \<Rightarrow> Tile \<Rightarrow> bool \<times> 'p"

text \<open>
  Modelled from the spec: the provider's counter of loads in flight, read from its private
  state.
\<close>

definition loadingTileCounter :: "'p TileProvider \<Rightarrow> int" where
  "loadingTileCounter prov = counterOf prov (pstate prov)"

type_synonym addr = nat

text \<open>
  Modelled from the spec: \<^verbatim>\<open>loadTile(tile)\<close> for the tile at address \<open>a\<close> of the
  store \<open>h\<close>; it gives the answer, the provider afterwards and the store afterwards.
\<close>

definition loadTile ::
  "'p TileProvider \<Rightarrow> (addr \<Rightarrow> Tile) \<Rightarrow> addr \<Rightarrow> bool \<times> 'p TileProvider \<times> (addr \<Rightarrow> Tile)" where
  "loadTile prov h a =
     (let (ok, p') = loadFn prov (pstate prov) (h a)
      in (ok, prov\<lparr>pstate := p'\<rparr>, if ok then h(a := (h a)\<lparr>state := LOADING\<rparr>) else h))"

subsection \<open>The cache object\<close>

text \<open>
  The private fields of the source end in an underscore (\<^verbatim>\<open>tileMap_\<close>,
  \<^verbatim>\<open>loadRequests_\<close>, \<^verbatim>\<open>tileProvider_\<close>, \<^verbatim>\<open>tileProviderResetTime_\<close>,
  \<^verbatim>\<open>tileLoaded_\<close>), which a name cannot here; they are written without it.
  \<open>tileMap\<close> is the \<^verbatim>\<open>goog.structs.Map\<close>: an association list in insertion order
  (the order in which \<^verbatim>\<open>getValues\<close> lists the values), where \<^verbatim>\<open>get\<close> is
  \<^const>\<open>map_of\<close>, \<^verbatim>\<open>set\<close> is \<^const>\<open>AList.update\<close>, \<^verbatim>\<open>remove\<close> is
  \<^const>\<open>AList.delete\<close>, \<^verbatim>\<open>getCount\<close> is the length and \<^verbatim>\<open>clear\<close> leaves the
  empty list. Two fields are not in the source: \<open>cachedCalls\<close> lists the tiles that
  \<^verbatim>\<open>tileCachedHandler\<close> was invoked with, and \<open>loadCalls\<close> lists the calls of
  the provider's \<^verbatim>\<open>loadTile\<close> with their answers, both oldest first.
\<close>

record 'p TileCache =
  tiles :: "addr \<Rightarrow> Tile"
  nalloc :: nat
  tileMap :: "(key \<times> addr) list"
  loadRequests :: "addr list"
  targetSize :: int
  tileProvider :: "'p TileProvider"
  tileProviderResetTime :: int
  cachedCalls :: "addr list"
  loadCalls :: "(addr \<times> bool) list"

text \<open>
  \<open>now\<close> is the value of \<^verbatim>\<open>goog.now()\<close>. Registering \<^verbatim>\<open>tileLoaded_\<close> as the
  provider's \<^verbatim>\<open>tileLoadedHandler\<close> has no counterpart here: a completion that the
  provider reports is a call of \<open>tileLoaded\<close>.
\<close>

definition setTileProvider :: "int \<Rightarrow> 'p TileProvider \<Rightarrow> 'p TileCache \<Rightarrow> 'p TileCache" where
  "setTileProvider now tileprovider c =
     c\<lparr>tileProviderResetTime := now, tileProvider := tileprovider,
       tileMap := [], loadRequests := []\<rparr>"

definition getTileFromCache :: "key \<Rightarrow> 'p TileCache \<Rightarrow> addr option" where
  "getTileFromCache k c = map_of (tileMap c) k"

text \<open>
  The constructor: an empty map and queue, the default target size, then
  \<^verbatim>\<open>setTileProvider\<close>, which reads the clock (\<open>now\<close> is the value of
  \<^verbatim>\<open>goog.now()\<close>). No tile exists yet; the store is filled with a placeholder. The
  timer that the constructor starts calls \<^verbatim>\<open>cleanCache\<close> every 20 seconds; its ticks
  are calls of \<open>cleanCache\<close>.
\<close>

definition new_TileCache :: "int \<Rightarrow> 'p TileProvider \<Rightarrow> 'p TileCache" where
  "new_TileCache now tileprovider =
     setTileProvider now tileprovider
       \<lparr>tiles = (\<lambda>_. new_Tile 0 0 0 0), nalloc = 0, tileMap = [], loadRequests = [],
        targetSize = 1024, tileProvider = tileprovider, tileProviderResetTime = 0,
        cachedCalls = [], loadCalls = []\<rparr>"

subsection \<open>cleanCache\<close>

text \<open>
  \<^verbatim>\<open>goog.array.sort\<close> with the comparator
  \<^verbatim>\<open>tile1.requestTime - tile2.requestTime\<close> sorts ascending by requestTime. The
  library does not fix the order it gives to tiles of equal requestTime; the model keeps them
  in the order they had (\<^const>\<open>sort_key\<close> is stable).
\<close>

definition cleanable :: "'p TileCache \<Rightarrow> addr list" where
  "cleanable c =
     sort_key (\<lambda>a. requestTime (tiles c a))
       (filter (\<lambda>a. state (tiles c a) = LOADED \<or> state (tiles c a) = PREPARING \<or>
                     state (tiles c a) = ERROR)
          (map snd (tileMap c)))"

text \<open>
  The body of the loop for the tile \<open>a\<close> taken from the head of \<^verbatim>\<open>cleanable\<close>.
\<close>

definition cleanStep :: "addr \<Rightarrow> 'p TileCache \<Rightarrow> 'p TileCache" where
  "cleanStep a c =
     c\<lparr>loadRequests :=
         (if state (tiles c a) = PREPARING then remove1 a (loadRequests c)
          else loadRequests c),
       tileMap := AList.delete (getKey (tiles c a)) (tileMap c),
       tiles := (tiles c)(a := dispose (tiles c a))\<rparr>"

fun cleanLoop :: "addr list \<Rightarrow> 'p TileCache \<Rightarrow> 'p TileCache" where
  "cleanLoop [] c = c"
| "cleanLoop (a # rest) c =
     (if int (length (tileMap c)) > targetSize c then cleanLoop rest (cleanStep a c)
      else c)"

definition cleanCache :: "'p TileCache \<Rightarrow> 'p TileCache" where
  "cleanCache c = cleanLoop (cleanable c) c"

subsection \<open>retrieveTile and updateRequestTime\<close>

definition retrieveTile ::
  "int \<Rightarrow> int \<Rightarrow> int \<Rightarrow> int \<Rightarrow> 'p TileCache \<Rightarrow> addr \<times> 'p TileCache" where
  "retrieveTile z x y rt c =
     (let k = createKey z x y in
      case getTileFromCache k c of
        None \<Rightarrow>
          (let a = nalloc c in
           (a, c\<lparr>tiles := (tiles c)(a := new_Tile z x y rt), nalloc := Suc a,
                 tileMap := AList.update k a (tileMap c),
                 loadRequests := loadRequests c @ [a]\<rparr>))
      | Some a \<Rightarrow> (a, c\<lparr>tiles := (tiles c)(a := (tiles c a)\<lparr>requestTime := rt\<rparr>)\<rparr>))"

definition updateRequestTime :: "key \<Rightarrow> int \<Rightarrow> 'p TileCache \<Rightarrow> 'p TileCache" where
  "updateRequestTime k rt c =
     (case getTileFromCache k c of
        None \<Rightarrow> c
      | Some a \<Rightarrow> c\<lparr>tiles := (tiles c)(a := (tiles c a)\<lparr>requestTime := rt\<rparr>)\<rparr>)"

subsection \<open>tileLoaded\<close>

definition tileLoaded :: "addr \<Rightarrow> 'p TileCache \<Rightarrow> 'p TileCache" where
  "tileLoaded a c =
     (if requestTime (tiles c a) < tileProviderResetTime c then
        c\<lparr>tiles := (tiles c)(a := (tiles c a)\<lparr>state := ERROR\<rparr>)\<rparr>
      else c\<lparr>cachedCalls := cachedCalls c @ [a]\<rparr>)"

subsection \<open>purgeNotLoadedTiles\<close>

definition purgeStep :: "'p TileCache \<Rightarrow> 'p TileCache" where
  "purgeStep c =
     (let a = hd (loadRequests c) in
      c\<lparr>loadRequests := tl (loadRequests c),
        tileMap := AList.delete (getKey (tiles c a)) (tileMap c),
        tiles := (tiles c)(a := dispose (tiles c a))\<rparr>)"

function purgeLoop :: "int \<Rightarrow> 'p TileCache \<Rightarrow> 'p TileCache" where
  "purgeLoop time c =
     (if loadRequests c \<noteq> [] \<and> requestTime (tiles c (hd (loadRequests c))) < time then
        purgeLoop time (purgeStep c)
      else c)"
  by pat_completeness auto
termination
  by (relation "measure (\<lambda>(time, c). length (loadRequests c))")
    (auto simp: purgeStep_def Let_def)

declare purgeLoop.simps [simp del]

definition purgeNotLoadedTiles :: "int \<Rightarrow> int \<Rightarrow> 'p TileCache \<Rightarrow> 'p TileCache" where
  "purgeNotLoadedTiles now timeLimit c = purgeLoop (now - timeLimit) c"

subsection \<open>processLoadRequests\<close>

text \<open>
  \<^verbatim>\<open>pop()\<close> of an empty array gives \<^verbatim>\<open>undefined\<close>, which the loop would hand to
  the provider; that is the error \<open>UndefinedTile\<close>. The loop runs while \<^verbatim>\<open>i < n\<close>,
  that is \<open>nat n\<close> times; \<open>loadLoop\<close> counts the iterations that remain and
  \<open>loadStep\<close> is one iteration on a queue that is not empty.
\<close>

datatype error = UndefinedTile

definition loadStep :: "'p TileCache \<Rightarrow> 'p TileCache" where
  "loadStep c =
     (let a = last (loadRequests c);
          rest = butlast (loadRequests c);
          (ok, prov, h) = loadTile (tileProvider c) (tiles c) a
      in c\<lparr>loadRequests := (if ok then rest else rest @ [a]),
           tileProvider := prov, tiles := h,
           loadCalls := loadCalls c @ [(a, ok)]\<rparr>)"

fun loadLoop :: "nat \<Rightarrow> 'p TileCache \<Rightarrow> error + 'p TileCache" where
  "loadLoop 0 c = Inr c"
| "loadLoop (Suc i) c =
     (if loadRequests c = [] then Inl UndefinedTile else loadLoop i (loadStep c))"

definition processLoadRequests :: "int \<Rightarrow> 'p TileCache \<Rightarrow> error + 'p TileCache" where
  "processLoadRequests tilesToBeLoading c =
     (let c1 = c\<lparr>loadRequests := sort_key (\<lambda>a. requestTime (tiles c a)) (loadRequests c)\<rparr>;
          n = min (int (length (loadRequests c1)))
                  (tilesToBeLoading - loadingTileCounter (tileProvider c1))
      in loadLoop (nat n) c1)"

subsection \<open>Sequences of operations\<close>

datatype 'p operation =
    RetrieveTile int int int int
  | UpdateRequestTime key int
  | CleanCache
  | PurgeNotLoadedTiles int int
  | ProcessLoadRequests int
  | SetTileProvider int "'p TileProvider"

fun perform :: "'p operation \<Rightarrow> 'p TileCache \<Rightarrow> error + 'p TileCache" where
  "perform (RetrieveTile z x y rt) c = Inr (snd (retrieveTile z x y rt c))"
| "perform (UpdateRequestTime k rt) c = Inr (updateRequestTime k rt c)"
| "perform CleanCache c = Inr (cleanCache c)"
| "perform (PurgeNotLoadedTiles now timeLimit) c = Inr (purgeNotLoadedTiles now timeLimit c)"
| "perform (ProcessLoadRequests n) c = processLoadRequests n c"
| "perform (SetTileProvider now tileprovider) c = Inr (setTileProvider now tileprovider c)"

fun performAll :: "'p operation list \<Rightarrow> 'p TileCache \<Rightarrow> error + 'p TileCache" where
  "performAll [] c = Inr c"
| "performAll (opn # ops) c =
     (case perform opn c of Inl e \<Rightarrow> Inl e | Inr c' \<Rightarrow> performAll ops c')"

fun isSetTileProvider :: "'p operation \<Rightarrow> bool" where
  "isSetTileProvider (SetTileProvider now tileprovider) = True"
| "isSetTileProvider _ = False"

text \<open>
  The calls \<^verbatim>\<open>retrieveTile(zoom, x, y, t)\<close> for the times of a list, one after the
  other, with the tiles they return.
\<close>

fun retrieveAll ::
  "int \<Rightarrow> int \<Rightarrow> int \<Rightarrow> int list \<Rightarrow> 'p TileCache \<Rightarrow> addr list \<times> 'p TileCache" where
  "retrieveAll z x y [] c = ([], c)"
| "retrieveAll z x y (rt # rts) c =
     (let (a, c') = retrieveTile z x y rt c;
          (as, c'') = retrieveAll z x y rts c'
      in (a # as, c''))"

subsection \<open>The invariant of the two containers\<close>

text \<open>
  The keys of the map are distinct, every entry refers to a tile that was created and
  that has the entry's key, and the queue holds distinct tiles of the map that are in
  state Preparing.
\<close>

definition cache_inv :: "'p TileCache \<Rightarrow> bool" where
  "cache_inv c \<longleftrightarrow>
     distinct (map fst (tileMap c)) \<and>
     (\<forall>(k, a) \<in> set (tileMap c). a < nalloc c \<and> getKey (tiles c a) = k) \<and>
     distinct (loadRequests c) \<and>
     (\<forall>a \<in> set (loadRequests c). a \<in> snd ` set (tileMap c) \<and> state (tiles c a) = PREPARING)"

subsection \<open>Auxiliary notions\<close>

text \<open>
  How many tiles \<^verbatim>\<open>cleanCache\<close> has to remove to come down to the target size.
\<close>

definition evictCount :: "'p TileCache \<Rightarrow> nat" where
  "evictCount c = nat (int (length (tileMap c)) - targetSize c)"

text \<open>
  The answer that the provider gives when it is offered the tile at the tail of the
  queue, and the calls of \<^verbatim>\<open>loadTile\<close> that \<open>n\<close> iterations of the dispatch loop
  make.
\<close>

definition nextAnswer :: "'p TileCache \<Rightarrow> bool" where
  "nextAnswer c =
     fst (loadFn (tileProvider c) (pstate (tileProvider c)) (tiles c (last (loadRequests c))))"

fun callsOf :: "nat \<Rightarrow> 'p TileCache \<Rightarrow> (addr \<times> bool) list" where
  "callsOf 0 c = []"
| "callsOf (Suc n) c = (last (loadRequests c), nextAnswer c) # callsOf n (loadStep c)"

text \<open>
  The queue as \<^verbatim>\<open>processLoadRequests\<close> sorts it, and the number \<^verbatim>\<open>n\<close> that it
  computes.
\<close>

definition sortedRequests :: "'p TileCache \<Rightarrow> addr list" where
  "sortedRequests c = sort_key (\<lambda>a. requestTime (tiles c a)) (loadRequests c)"

definition roundSize :: "int \<Rightarrow> 'p TileCache \<Rightarrow> int" where
  "roundSize tilesToBeLoading c =
     min (int (length (loadRequests c)))
         (tilesToBeLoading - loadingTileCounter (tileProvider c))"

subsection \<open>Example providers and caches\<close>

definition acceptAll :: "unit TileProvider" where
  "acceptAll = \<lparr>pstate = (), counterOf = (\<lambda>_. 0), loadFn = (\<lambda>p t. (True, p))\<rparr>"

definition declineAll :: "unit TileProvider" where
  "declineAll = \<lparr>pstate = (), counterOf = (\<lambda>_. 0), loadFn = (\<lambda>p t. (False, p))\<rparr>"

text \<open>A provider that refuses the first tile it is offered and takes every later one.\<close>

definition declineOnce :: "bool TileProvider" where
  "declineOnce = \<lparr>pstate = False, counterOf = (\<lambda>_. 0), loadFn = (\<lambda>p t. (p, True))\<rparr>"

text \<open>
  A new cache in which the tile (2, 1, 1) was requested at time 5 and then the tile
  (2, 1, 2) at time 3.
\<close>

definition twoTiles :: "'p TileProvider \<Rightarrow> 'p TileCache" where
  "twoTiles prov =
     snd (retrieveTile 2 1 2 3 (snd (retrieveTile 2 1 1 5 (new_TileCache 0 prov))))"

text \<open>
  The cache of the stale completion: after the two requests above the provider is set
  again at time 20, and the tile (2, 1, 1) is requested at time 25.
\<close>

definition staleDemo :: "unit TileCache" where
  "staleDemo = snd (retrieveTile 2 1 1 25 (setTileProvider 20 acceptAll (twoTiles acceptAll)))"

text \<open>
  The same cache after a dispatch round that loads nothing (the queue is sorted by
  requestTime), after a round in which the provider takes one tile, and the latter with
  the target size 0.
\<close>

definition sortedTiles :: "'p TileProvider \<Rightarrow> 'p TileCache" where
  "sortedTiles prov = (twoTiles prov)\<lparr>loadRequests := [1, 0]\<rparr>"

definition dispatchedTiles :: "unit TileCache" where
  "dispatchedTiles = loadStep (sortedTiles acceptAll)"

definition loadingDemo :: "unit TileCache" where
  "loadingDemo = dispatchedTiles\<lparr>targetSize := 0\<rparr>"

text \<open>
  The caches after a dispatch round for two tiles with the provider that refuses once,
  the provider that always refuses and the provider that always accepts.
\<close>

definition refusedOnce :: "bool TileCache" where
  "refusedOnce = loadStep (loadStep (sortedTiles declineOnce))"

definition refusedTwice :: "unit TileCache" where
  "refusedTwice = loadStep (loadStep (sortedTiles declineAll))"

definition acceptedBoth :: "unit TileCache" where
  "acceptedBoth = loadStep (loadStep (sortedTiles acceptAll))"

section \<open>Auxiliary facts\<close>

subsection \<open>The association list\<close>

lemma update_fresh: "k \<notin> fst ` set al \<Longrightarrow> AList.update k v al = al @ [(k, v)]"
  by (induction al) auto

lemma delete_own_entry:
  assumes "distinct (map fst al)" and "(k, a) \<in> set al"
    and "\<forall>(k', b) \<in> set al. f b = k'"
  shows "AList.delete k al = filter (\<lambda>(k', b). b \<noteq> a) al"
proof -
  have "\<And>k' b. (k', b) \<in> set al \<Longrightarrow> (k' \<noteq> k) = (b \<noteq> a)"
  proof -
    fix k' b assume m: "(k', b) \<in> set al"
    from assms(3) m have "f b = k'" by auto
    moreover from assms(3) assms(2) have "f a = k" by auto
    moreover have "k' = k \<Longrightarrow> b = a"
      using assms(1) assms(2) m by (meson eq_key_imp_eq_value)
    ultimately show "(k' \<noteq> k) = (b \<noteq> a)" by auto
  qed
  then show ?thesis
    unfolding AList.delete_eq by (intro filter_cong) auto
qed

subsection \<open>Tiles\<close>

lemma getKey_simps [simp]:
  "getKey (t\<lparr>requestTime := rt\<rparr>) = getKey t"
  "getKey (t\<lparr>state := st\<rparr>) = getKey t"
  "getKey (dispose t) = getKey t"
  "getKey (new_Tile z x y rt) = createKey z x y"
  by (simp_all add: getKey_def dispose_def new_Tile_def)

lemma dispose_simps [simp]:
  "state (dispose t) = state t" "requestTime (dispose t) = requestTime t"
  "image (dispose t) = None"
  by (simp_all add: dispose_def)

lemma new_Tile_simps [simp]:
  "state (new_Tile z x y rt) = PREPARING" "requestTime (new_Tile z x y rt) = rt"
  by (simp_all add: new_Tile_def)

subsection \<open>The invariant: new caches, requests and provider changes\<close>

lemma cache_inv_new: "cache_inv (new_TileCache now p)"
  by (simp add: cache_inv_def new_TileCache_def setTileProvider_def)

lemma cache_inv_setTileProvider: "cache_inv (setTileProvider now p c)"
  by (simp add: cache_inv_def setTileProvider_def)

lemma cache_inv_updateRequestTime:
  "cache_inv c \<Longrightarrow> cache_inv (updateRequestTime k rt c)"
  by (auto simp: cache_inv_def updateRequestTime_def split: option.splits)

lemma cache_inv_retrieveTile:
  assumes "cache_inv c"
  shows "cache_inv (snd (retrieveTile z x y rt c))"
proof (cases "getTileFromCache (createKey z x y) c")
  case None
  then have fresh: "createKey z x y \<notin> fst ` set (tileMap c)"
    by (simp add: getTileFromCache_def map_of_eq_None_iff)
  have lt: "\<And>k a. (k, a) \<in> set (tileMap c) \<Longrightarrow> a < nalloc c"
    using assms by (auto simp: cache_inv_def)
  then have notq: "nalloc c \<notin> set (loadRequests c)"
    using assms by (fastforce simp: cache_inv_def)
  show ?thesis
    using assms None fresh notq lt
    by (auto simp: cache_inv_def retrieveTile_def Let_def update_fresh image_iff intro: less_SucI)
next
  case (Some a)
  then show ?thesis
    using assms by (auto simp: cache_inv_def retrieveTile_def Let_def)
qed

subsection \<open>Removing a tile from the store\<close>

lemma length_delete_present:
  "distinct (map fst al) \<Longrightarrow> k \<in> fst ` set al \<Longrightarrow> Suc (length (AList.delete k al)) = length al"
proof (induction al)
  case Nil then show ?case by simp
next
  case (Cons p al)
  show ?case
  proof (cases "fst p = k")
    case True
    with Cons.prems have "k \<notin> fst ` set al" by auto
    with True show ?thesis by (cases p) simp
  next
    case False
    with Cons show ?thesis by (cases p) auto
  qed
qed

text \<open>Removing from both containers a tile that is in the map.\<close>

lemma inv_entry:
  "cache_inv c \<Longrightarrow> a \<in> snd ` set (tileMap c) \<Longrightarrow> (getKey (tiles c a), a) \<in> set (tileMap c)"
  by (auto simp: cache_inv_def)

lemma inv_delete:
  assumes "cache_inv c" and "a \<in> snd ` set (tileMap c)"
  shows "AList.delete (getKey (tiles c a)) (tileMap c) = filter (\<lambda>(k, b). b \<noteq> a) (tileMap c)"
proof (rule delete_own_entry [where f = "\<lambda>b. getKey (tiles c b)"])
  show "distinct (map fst (tileMap c))" using assms by (simp add: cache_inv_def)
  show "(getKey (tiles c a), a) \<in> set (tileMap c)" using assms by (rule inv_entry)
  show "\<forall>(k', b)\<in>set (tileMap c). getKey (tiles c b) = k'"
    using assms by (auto simp: cache_inv_def)
qed

lemma inv_delete_length:
  assumes "cache_inv c" and "a \<in> snd ` set (tileMap c)"
  shows "Suc (length (AList.delete (getKey (tiles c a)) (tileMap c))) = length (tileMap c)"
proof (rule length_delete_present)
  show "distinct (map fst (tileMap c))" using assms by (simp add: cache_inv_def)
  show "getKey (tiles c a) \<in> fst ` set (tileMap c)"
    using inv_entry [OF assms] by force
qed

lemma cleanStep_fields [simp]:
  "targetSize (cleanStep a c) = targetSize c"
  "nalloc (cleanStep a c) = nalloc c"
  "tileProvider (cleanStep a c) = tileProvider c"
  "tileProviderResetTime (cleanStep a c) = tileProviderResetTime c"
  "cachedCalls (cleanStep a c) = cachedCalls c"
  "loadCalls (cleanStep a c) = loadCalls c"
  "tiles (cleanStep a c) = (tiles c)(a := dispose (tiles c a))"
  by (simp_all add: cleanStep_def)

lemma cleanStep_tileMap:
  "cache_inv c \<Longrightarrow> a \<in> snd ` set (tileMap c) \<Longrightarrow>
   tileMap (cleanStep a c) = filter (\<lambda>(k, b). b \<noteq> a) (tileMap c)"
  by (simp add: cleanStep_def inv_delete)

lemma cleanStep_length:
  "cache_inv c \<Longrightarrow> a \<in> snd ` set (tileMap c) \<Longrightarrow>
   Suc (length (tileMap (cleanStep a c))) = length (tileMap c)"
  by (simp add: cleanStep_def inv_delete_length)

lemma cleanStep_loadRequests:
  assumes "cache_inv c"
  shows "loadRequests (cleanStep a c) = filter (\<lambda>b. b \<noteq> a) (loadRequests c)"
proof (cases "state (tiles c a) = PREPARING")
  case True
  have "distinct (loadRequests c)" using assms by (simp add: cache_inv_def)
  then have "remove1 a (loadRequests c) = filter (\<lambda>b. b \<noteq> a) (loadRequests c)"
    by (simp add: distinct_remove1_removeAll removeAll_filter_not_eq) metis
  with True show ?thesis by (simp add: cleanStep_def)
next
  case False
  then have "a \<notin> set (loadRequests c)" using assms by (auto simp: cache_inv_def)
  then have "filter (\<lambda>b. b \<noteq> a) (loadRequests c) = loadRequests c"
    by (auto simp: filter_id_conv)
  with False show ?thesis by (simp add: cleanStep_def)
qed

lemma cache_inv_cleanStep:
  assumes "cache_inv c" and "a \<in> snd ` set (tileMap c)"
  shows "cache_inv (cleanStep a c)"
proof -
  have m: "tileMap (cleanStep a c) = filter (\<lambda>(k, b). b \<noteq> a) (tileMap c)"
    using assms by (rule cleanStep_tileMap)
  have q: "loadRequests (cleanStep a c) = filter (\<lambda>b. b \<noteq> a) (loadRequests c)"
    using assms(1) by (rule cleanStep_loadRequests)
  have 1: "distinct (map fst (tileMap (cleanStep a c)))"
    unfolding m using assms(1) by (simp add: cache_inv_def distinct_map_filter)
  have 2: "\<forall>(k, b) \<in> set (tileMap (cleanStep a c)).
             b < nalloc (cleanStep a c) \<and> getKey (tiles (cleanStep a c) b) = k"
    unfolding m using assms(1) by (auto simp: cache_inv_def)
  have 3: "distinct (loadRequests (cleanStep a c))"
    unfolding q using assms(1) by (simp add: cache_inv_def)
  have 4: "\<forall>b \<in> set (loadRequests (cleanStep a c)).
             b \<in> snd ` set (tileMap (cleanStep a c)) \<and> state (tiles (cleanStep a c) b) = PREPARING"
    unfolding m q using assms(1) by (fastforce simp: cache_inv_def)
  from 1 2 3 4 show ?thesis unfolding cache_inv_def by blast
qed

subsection \<open>The loop of cleanCache\<close>

lemma cleanLoop_fields [simp]:
  "targetSize (cleanLoop as c) = targetSize c"
  "nalloc (cleanLoop as c) = nalloc c"
  "tileProvider (cleanLoop as c) = tileProvider c"
  "tileProviderResetTime (cleanLoop as c) = tileProviderResetTime c"
  "cachedCalls (cleanLoop as c) = cachedCalls c"
  "loadCalls (cleanLoop as c) = loadCalls c"
  by (induction as c rule: cleanLoop.induct; simp)+

lemma cleanLoop_char:
  assumes "cache_inv c" and "distinct as" and "set as \<subseteq> snd ` set (tileMap c)"
  shows "cache_inv (cleanLoop as c) \<and>
    tileMap (cleanLoop as c) =
      filter (\<lambda>(k, b). b \<notin> set (take (evictCount c) as)) (tileMap c) \<and>
    loadRequests (cleanLoop as c) =
      filter (\<lambda>b. b \<notin> set (take (evictCount c) as)) (loadRequests c) \<and>
    tiles (cleanLoop as c) =
      (\<lambda>b. if b \<in> set (take (evictCount c) as) then dispose (tiles c b) else tiles c b)"
  using assms
proof (induction as arbitrary: c)
  case Nil
  then show ?case by simp
next
  case (Cons a rest)
  show ?case
  proof (cases "int (length (tileMap c)) > targetSize c")
    case False
    then have "evictCount c = 0" by (simp add: evictCount_def)
    with False Cons.prems(1) show ?thesis by simp
  next
    case True
    let ?c1 = "cleanStep a c"
    from Cons.prems have a_in: "a \<in> snd ` set (tileMap c)" and a_rest: "a \<notin> set rest"
      and d_rest: "distinct rest" by auto
    have inv1: "cache_inv ?c1" using Cons.prems(1) a_in by (rule cache_inv_cleanStep)
    have m1: "tileMap ?c1 = filter (\<lambda>(k, b). b \<noteq> a) (tileMap c)"
      using Cons.prems(1) a_in by (rule cleanStep_tileMap)
    have q1: "loadRequests ?c1 = filter (\<lambda>b. b \<noteq> a) (loadRequests c)"
      using Cons.prems(1) by (rule cleanStep_loadRequests)
    have len: "Suc (length (tileMap ?c1)) = length (tileMap c)"
      using Cons.prems(1) a_in by (rule cleanStep_length)
    have cnt: "evictCount c = Suc (evictCount ?c1)"
      using True len by (simp add: evictCount_def)
    have sub1: "set rest \<subseteq> snd ` set (tileMap ?c1)"
      unfolding m1 using Cons.prems(3) a_rest by force
    note IH = Cons.IH [OF inv1 d_rest sub1]
    have unfold: "cleanLoop (a # rest) c = cleanLoop rest ?c1" using True by simp
    have tk: "take (evictCount c) (a # rest) = a # take (evictCount ?c1) rest"
      by (simp add: cnt)
    have a_tk: "a \<notin> set (take (evictCount ?c1) rest)"
      using a_rest by (auto dest: in_set_takeD)
    have A: "tileMap (cleanLoop (a # rest) c) =
        filter (\<lambda>(k, b). b \<notin> set (take (evictCount c) (a # rest))) (tileMap c)"
      unfolding unfold tk using IH by (simp add: m1 case_prod_unfold conj_commute)
    have B: "loadRequests (cleanLoop (a # rest) c) =
        filter (\<lambda>b. b \<notin> set (take (evictCount c) (a # rest))) (loadRequests c)"
      unfolding unfold tk using IH by (simp add: q1 conj_commute)
    have C: "tiles (cleanLoop (a # rest) c) =
        (\<lambda>b. if b \<in> set (take (evictCount c) (a # rest)) then dispose (tiles c b) else tiles c b)"
      unfolding unfold tk using IH a_tk by (auto simp: fun_eq_iff)
    from IH A B C show ?thesis unfolding unfold by blast
  qed
qed

subsection \<open>The loop of purgeNotLoadedTiles\<close>

lemma purgeLoop_step:
  "loadRequests c \<noteq> [] \<Longrightarrow> requestTime (tiles c (hd (loadRequests c))) < t \<Longrightarrow>
   purgeLoop t c = purgeLoop t (purgeStep c)"
  by (subst purgeLoop.simps) simp

lemma purgeLoop_stop:
  "loadRequests c = [] \<or> \<not> requestTime (tiles c (hd (loadRequests c))) < t \<Longrightarrow>
   purgeLoop t c = c"
  by (subst purgeLoop.simps) auto

lemma purgeStep_cleanStep:
  assumes "cache_inv c" and "loadRequests c \<noteq> []"
  shows "purgeStep c = cleanStep (hd (loadRequests c)) c"
proof -
  obtain a q where q: "loadRequests c = a # q" using assms(2) by (cases "loadRequests c") auto
  with assms(1) have "state (tiles c a) = PREPARING" by (simp add: cache_inv_def)
  with q show ?thesis by (simp add: purgeStep_def cleanStep_def)
qed

lemma purgeLoop_preserves:
  assumes "\<And>c. f (purgeStep c) = f c"
  shows "f (purgeLoop t c) = f c"
proof (induction t c rule: purgeLoop.induct)
  case (1 t c)
  show ?case
  proof (cases "loadRequests c \<noteq> [] \<and> requestTime (tiles c (hd (loadRequests c))) < t")
    case True
    with 1 assms show ?thesis by (simp add: purgeLoop_step)
  next
    case False
    then show ?thesis by (simp add: purgeLoop_stop)
  qed
qed

lemma purgeLoop_fields [simp]:
  "targetSize (purgeLoop t c) = targetSize c"
  "nalloc (purgeLoop t c) = nalloc c"
  "tileProvider (purgeLoop t c) = tileProvider c"
  "tileProviderResetTime (purgeLoop t c) = tileProviderResetTime c"
  "cachedCalls (purgeLoop t c) = cachedCalls c"
  "loadCalls (purgeLoop t c) = loadCalls c"
  by (rule purgeLoop_preserves, simp add: purgeStep_def Let_def)+

lemma purgeLoop_char:
  assumes "cache_inv c"
  shows "cache_inv (purgeLoop t c) \<and>
    loadRequests (purgeLoop t c) =
      dropWhile (\<lambda>a. requestTime (tiles c a) < t) (loadRequests c) \<and>
    tileMap (purgeLoop t c) =
      filter (\<lambda>(k, b). b \<notin> set (takeWhile (\<lambda>a. requestTime (tiles c a) < t) (loadRequests c)))
        (tileMap c) \<and>
    tiles (purgeLoop t c) =
      (\<lambda>b. if b \<in> set (takeWhile (\<lambda>a. requestTime (tiles c a) < t) (loadRequests c))
           then dispose (tiles c b) else tiles c b)"
  using assms
proof (induction t c rule: purgeLoop.induct)
  case (1 t c)
  show ?case
  proof (cases "loadRequests c \<noteq> [] \<and> requestTime (tiles c (hd (loadRequests c))) < t")
    case False
    then have "purgeLoop t c = c" by (simp add: purgeLoop_stop)
    moreover from False
    have "takeWhile (\<lambda>a. requestTime (tiles c a) < t) (loadRequests c) = []"
      by (cases "loadRequests c") auto
    moreover from False
    have "dropWhile (\<lambda>a. requestTime (tiles c a) < t) (loadRequests c) = loadRequests c"
      by (cases "loadRequests c") auto
    ultimately show ?thesis using "1.prems" by simp
  next
    case True
    then obtain a q where q: "loadRequests c = a # q" and old: "requestTime (tiles c a) < t"
      by (cases "loadRequests c") auto
    let ?c1 = "purgeStep c"
    have step: "?c1 = cleanStep a c" using "1.prems" q by (simp add: purgeStep_cleanStep)
    from "1.prems" q have a_in: "a \<in> snd ` set (tileMap c)" and a_q: "a \<notin> set q"
      by (auto simp: cache_inv_def)
    have inv1: "cache_inv ?c1" unfolding step using "1.prems" a_in by (rule cache_inv_cleanStep)
    have m1: "tileMap ?c1 = filter (\<lambda>(k, b). b \<noteq> a) (tileMap c)"
      unfolding step using "1.prems" a_in by (rule cleanStep_tileMap)
    have q1: "loadRequests ?c1 = q" using q by (simp add: purgeStep_def Let_def)
    have t1: "tiles ?c1 = (tiles c)(a := dispose (tiles c a))" unfolding step by simp
    have rt: "(\<lambda>b. requestTime (tiles ?c1 b) < t) = (\<lambda>b. requestTime (tiles c b) < t)"
      unfolding t1 by (auto simp: fun_eq_iff)
    note IH = "1.IH" [OF True inv1, unfolded rt q1]
    have unfold: "purgeLoop t c = purgeLoop t ?c1" using True by (simp add: purgeLoop_step)
    have a_tw: "a \<notin> set (takeWhile (\<lambda>a. requestTime (tiles c a) < t) q)"
      using a_q by (auto dest: set_takeWhileD)
    have A: "loadRequests (purgeLoop t c) =
        dropWhile (\<lambda>a. requestTime (tiles c a) < t) (loadRequests c)"
      unfolding unfold q using IH old by simp
    have B: "tileMap (purgeLoop t c) =
        filter (\<lambda>(k, b). b \<notin> set (takeWhile (\<lambda>a. requestTime (tiles c a) < t) (loadRequests c)))
          (tileMap c)"
      unfolding unfold q using IH old by (simp add: m1 case_prod_unfold conj_commute)
    have C: "tiles (purgeLoop t c) =
        (\<lambda>b. if b \<in> set (takeWhile (\<lambda>a. requestTime (tiles c a) < t) (loadRequests c))
           then dispose (tiles c b) else tiles c b)"
      unfolding unfold q using IH old a_tw by (auto simp: fun_eq_iff t1)
    from IH A B C show ?thesis unfolding unfold by blast
  qed
qed

subsection \<open>One iteration of the dispatch loop\<close>

lemma loadStep_preserved [simp]:
  "tileMap (loadStep c) = tileMap c"
  "nalloc (loadStep c) = nalloc c"
  "targetSize (loadStep c) = targetSize c"
  "tileProviderResetTime (loadStep c) = tileProviderResetTime c"
  "cachedCalls (loadStep c) = cachedCalls c"
  "loadFn (tileProvider (loadStep c)) = loadFn (tileProvider c)"
  "counterOf (tileProvider (loadStep c)) = counterOf (tileProvider c)"
  by (simp_all add: loadStep_def loadTile_def Let_def split: prod.splits)

lemma loadStep_loadCalls:
  "loadCalls (loadStep c) = loadCalls c @ [(last (loadRequests c), nextAnswer c)]"
  by (simp add: loadStep_def loadTile_def nextAnswer_def Let_def split: prod.splits)

lemma loadStep_loadRequests:
  "loadRequests c \<noteq> [] \<Longrightarrow>
   loadRequests (loadStep c) = (if nextAnswer c then butlast (loadRequests c) else loadRequests c)"
  by (simp add: loadStep_def loadTile_def nextAnswer_def Let_def split: prod.splits)

lemma loadStep_tiles:
  "tiles (loadStep c) =
     (if nextAnswer c
      then (tiles c)(last (loadRequests c) := (tiles c (last (loadRequests c)))\<lparr>state := LOADING\<rparr>)
      else tiles c)"
  by (simp add: loadStep_def loadTile_def nextAnswer_def Let_def split: prod.splits)

lemma loadStep_requestTime [simp]:
  "requestTime (tiles (loadStep c) b) = requestTime (tiles c b)"
  by (simp add: loadStep_tiles)

lemma cache_inv_loadStep:
  assumes "cache_inv c" and "loadRequests c \<noteq> []"
  shows "cache_inv (loadStep c)"
proof -
  obtain q a where q: "loadRequests c = q @ [a]"
    using assms(2) by (cases "loadRequests c" rule: rev_cases) auto
  show ?thesis
  proof (cases "nextAnswer c")
    case False
    with assms show ?thesis
      by (simp add: cache_inv_def loadStep_loadRequests loadStep_tiles)
  next
    case True
    with assms(1) q show ?thesis
      by (auto simp: cache_inv_def loadStep_loadRequests loadStep_tiles)
  qed
qed

subsection \<open>The dispatch loop\<close>

lemma loadStep_length:
  "loadRequests c \<noteq> [] \<Longrightarrow> length (loadRequests c) \<le> Suc (length (loadRequests (loadStep c)))"
  by (simp add: loadStep_loadRequests)

lemma loadLoop_funpow:
  "n \<le> length (loadRequests c) \<Longrightarrow> loadLoop n c = Inr ((loadStep ^^ n) c)"
proof (induction n arbitrary: c)
  case 0
  then show ?case by simp
next
  case (Suc n)
  then have ne: "loadRequests c \<noteq> []" by auto
  with Suc.prems have "n \<le> length (loadRequests (loadStep c))"
    using loadStep_length [OF ne] by linarith
  then have "loadLoop n (loadStep c) = Inr ((loadStep ^^ n) (loadStep c))" by (rule Suc.IH)
  with ne show ?case by (simp add: funpow_swap1)
qed

lemma funpow_loadStep_preserved [simp]:
  "tileMap ((loadStep ^^ n) c) = tileMap c"
  "nalloc ((loadStep ^^ n) c) = nalloc c"
  "targetSize ((loadStep ^^ n) c) = targetSize c"
  "tileProviderResetTime ((loadStep ^^ n) c) = tileProviderResetTime c"
  "cachedCalls ((loadStep ^^ n) c) = cachedCalls c"
  "loadFn (tileProvider ((loadStep ^^ n) c)) = loadFn (tileProvider c)"
  "counterOf (tileProvider ((loadStep ^^ n) c)) = counterOf (tileProvider c)"
  "requestTime (tiles ((loadStep ^^ n) c) b) = requestTime (tiles c b)"
  by (induction n; simp)+

lemma funpow_loadStep_loadCalls:
  "loadCalls ((loadStep ^^ n) c) = loadCalls c @ callsOf n c"
  by (induction n arbitrary: c) (simp_all add: funpow_swap1 loadStep_loadCalls)

lemma length_callsOf [simp]: "length (callsOf n c) = n"
  by (induction n arbitrary: c) simp_all

lemma cache_inv_funpow_loadStep:
  "cache_inv c \<Longrightarrow> n \<le> length (loadRequests c) \<Longrightarrow> cache_inv ((loadStep ^^ n) c)"
proof (induction n arbitrary: c)
  case 0
  then show ?case by simp
next
  case (Suc n)
  then have ne: "loadRequests c \<noteq> []" by auto
  have "cache_inv (loadStep c)" using Suc.prems(1) ne by (rule cache_inv_loadStep)
  moreover have "n \<le> length (loadRequests (loadStep c))"
    using Suc.prems(2) loadStep_length [OF ne] by linarith
  ultimately have "cache_inv ((loadStep ^^ n) (loadStep c))" by (rule Suc.IH)
  then show ?case by (simp add: funpow_swap1)
qed

text \<open>After a refusal the next call offers the same tile.\<close>

lemma callsOf_reoffer:
  "n \<le> length (loadRequests c) \<Longrightarrow> callsOf n c = pre @ (a, False) # x # post \<Longrightarrow> fst x = a"
proof (induction n arbitrary: c pre)
  case 0
  then show ?case by simp
next
  case (Suc n)
  then have ne: "loadRequests c \<noteq> []" by auto
  have le: "n \<le> length (loadRequests (loadStep c))"
    using Suc.prems(1) loadStep_length [OF ne] by linarith
  show ?case
  proof (cases pre)
    case Nil
    with Suc.prems(2) have a: "a = last (loadRequests c)" and no: "\<not> nextAnswer c"
      and rest: "callsOf n (loadStep c) = x # post" by auto
    from rest obtain m where "n = Suc m" by (cases n) auto
    with rest have "fst x = last (loadRequests (loadStep c))" by auto
    with no ne a show ?thesis by (simp add: loadStep_loadRequests)
  next
    case (Cons p pre')
    with Suc.prems(2) have "callsOf n (loadStep c) = pre' @ (a, False) # x # post" by simp
    with le show ?thesis by (rule Suc.IH)
  qed
qed

text \<open>A refused tile stays in the queue unless a later call of the loop takes it.\<close>

lemma callsOf_refused:
  "n \<le> length (loadRequests c) \<Longrightarrow> callsOf n c = pre @ (a, False) # post \<Longrightarrow>
   a \<in> set (loadRequests ((loadStep ^^ n) c)) \<or> (a, True) \<in> set post"
proof (induction n arbitrary: c pre post)
  case 0
  then show ?case by simp
next
  case (Suc n)
  note IH = Suc.IH
  from Suc.prems have ne: "loadRequests c \<noteq> []" by auto
  have le: "n \<le> length (loadRequests (loadStep c))"
    using Suc.prems(1) loadStep_length [OF ne] by linarith
  show ?case
  proof (cases pre)
    case (Cons p pre')
    with Suc.prems(2) have "callsOf n (loadStep c) = pre' @ (a, False) # post" by simp
    with le have "a \<in> set (loadRequests ((loadStep ^^ n) (loadStep c))) \<or> (a, True) \<in> set post"
      by (rule Suc.IH)
    then show ?thesis by (simp add: funpow_swap1)
  next
    case Nil
    with Suc.prems(2) have a: "a = last (loadRequests c)" and no: "\<not> nextAnswer c"
      and rest: "callsOf n (loadStep c) = post" by auto
    from no ne have same: "loadRequests (loadStep c) = loadRequests c"
      by (simp add: loadStep_loadRequests)
    show ?thesis
    proof (cases n)
      case 0
      with same a ne show ?thesis by simp
    next
      case (Suc m)
      note n_pos = Suc
      from Suc rest same a obtain ok post' where post: "post = (a, ok) # post'"
        and rest': "callsOf n (loadStep c) = [] @ (a, ok) # post'" by auto
      show ?thesis
      proof (cases ok)
        case True
        with post show ?thesis by simp
      next
        case False
        with rest' have "callsOf n (loadStep c) = [] @ (a, False) # post'" by simp
        with le
        have "a \<in> set (loadRequests ((loadStep ^^ n) (loadStep c))) \<or> (a, True) \<in> set post'"
          by (rule IH)
        with post show ?thesis by (auto simp: funpow_swap1)
      qed
    qed
  qed
qed

subsection \<open>The example caches\<close>

lemma twoTiles_fields:
  "tileMap (twoTiles p) = [((2, 1, 1), 0), ((2, 1, 2), 1)]"
  "loadRequests (twoTiles p) = [0, 1]"
  "tiles (twoTiles p) 0 = new_Tile 2 1 1 5"
  "tiles (twoTiles p) (Suc 0) = new_Tile 2 1 2 3"
  "nalloc (twoTiles p) = 2"
  "targetSize (twoTiles p) = 1024"
  "tileProvider (twoTiles p) = p"
  "tileProviderResetTime (twoTiles p) = 0"
  "cachedCalls (twoTiles p) = []"
  "loadCalls (twoTiles p) = []"
  by (simp_all add: twoTiles_def retrieveTile_def new_TileCache_def setTileProvider_def
      getTileFromCache_def createKey_def)

lemma staleDemo_fields:
  "requestTime (tiles staleDemo 0) = 5"
  "requestTime (tiles staleDemo 2) = 25"
  "cachedCalls staleDemo = []"
  by (simp_all add: staleDemo_def retrieveTile_def setTileProvider_def getTileFromCache_def
      twoTiles_fields Let_def)

subsection \<open>Operations that leave the reset time alone\<close>

lemma perform_resetTime:
  "perform opn c = Inr c' \<Longrightarrow> \<not> isSetTileProvider opn \<Longrightarrow>
   tileProviderResetTime c' = tileProviderResetTime c"
proof (cases opn)
  case (ProcessLoadRequests m)
  assume "perform opn c = Inr c'"
  with ProcessLoadRequests show ?thesis
    by (simp add: processLoadRequests_def Let_def loadLoop_funpow)  auto
qed (auto simp: retrieveTile_def updateRequestTime_def cleanCache_def purgeNotLoadedTiles_def
       Let_def split: option.splits)

lemma performAll_resetTime:
  "performAll ops c = Inr c' \<Longrightarrow> \<forall>opn \<in> set ops. \<not> isSetTileProvider opn \<Longrightarrow>
   tileProviderResetTime c' = tileProviderResetTime c"
proof (induction ops arbitrary: c)
  case Nil
  then show ?case by simp
next
  case (Cons opn ops)
  then obtain c1 where 1: "perform opn c = Inr c1" and 2: "performAll ops c1 = Inr c'"
    by (auto split: sum.splits)
  from 1 Cons.prems(2) have "tileProviderResetTime c1 = tileProviderResetTime c"
    by (simp add: perform_resetTime)
  moreover from 2 Cons.prems(2) have "tileProviderResetTime c' = tileProviderResetTime c1"
    by (simp add: Cons.IH)
  ultimately show ?case by simp
qed

subsection \<open>Repeated requests of one tile\<close>

lemma retrieveAll_present:
  "getTileFromCache (createKey z x y) c = Some a \<Longrightarrow>
   fst (retrieveAll z x y rts c) = replicate (length rts) a \<and>
   nalloc (snd (retrieveAll z x y rts c)) = nalloc c \<and>
   getTileFromCache (createKey z x y) (snd (retrieveAll z x y rts c)) = Some a \<and>
   requestTime (tiles (snd (retrieveAll z x y rts c)) a) =
     (if rts = [] then requestTime (tiles c a) else last rts)"
proof (induction rts arbitrary: c)
  case Nil
  then show ?case by simp
next
  case (Cons rt rts)
  let ?c1 = "snd (retrieveTile z x y rt c)"
  from Cons.prems have r: "fst (retrieveTile z x y rt c) = a"
    and g: "getTileFromCache (createKey z x y) ?c1 = Some a"
    and n: "nalloc ?c1 = nalloc c" and t: "requestTime (tiles ?c1 a) = rt"
    by (simp_all add: retrieveTile_def Let_def getTileFromCache_def)
  from Cons.IH [OF g] r n t show ?case
    by (simp add: case_prod_unfold Let_def)
qed

lemma last_sorted_Max: "sorted xs \<Longrightarrow> xs \<noteq> [] \<Longrightarrow> last xs = Max (set (xs :: int list))"
proof (induction xs)
  case Nil
  then show ?case by simp
next
  case (Cons x xs)
  then show ?case by (cases "xs = []") (auto simp: max_def intro: antisym)
qed

subsection \<open>Consequences of the invariant\<close>

lemma inv_distinct_snd: 
  assumes "cache_inv c" shows "distinct (map snd (tileMap c))"
proof -
  have d: "distinct (map fst (tileMap c))" using assms by (simp add: cache_inv_def)
  have "map fst (tileMap c) = map (\<lambda>a. getKey (tiles c a)) (map snd (tileMap c))"
    using assms by (auto simp: cache_inv_def)
  with d have "distinct (map (\<lambda>a. getKey (tiles c a)) (map snd (tileMap c)))" by simp
  then show ?thesis by (simp only: distinct_map)
qed

lemma inv_lookup:
  assumes "cache_inv c" and "a \<in> snd ` set (tileMap c)"
  shows "getTileFromCache (getKey (tiles c a)) c = Some a"
proof -
  have "distinct (map fst (tileMap c))" using assms(1) by (simp add: cache_inv_def)
  moreover have "(getKey (tiles c a), a) \<in> set (tileMap c)" using assms by (rule inv_entry)
  ultimately show ?thesis by (simp add: getTileFromCache_def)
qed

lemma set_cleanable:
  "set (cleanable c) = {a \<in> snd ` set (tileMap c). state (tiles c a) \<noteq> LOADING}"
proof -
  have "\<And>s. (s = LOADED \<or> s = PREPARING \<or> s = ERROR) = (s \<noteq> LOADING)"
    by (case_tac s) auto
  then show ?thesis by (auto simp: cleanable_def)
qed

lemma distinct_cleanable: "cache_inv c \<Longrightarrow> distinct (cleanable c)"
  by (simp add: cleanable_def inv_distinct_snd)

lemma cleanCache_char:
  assumes "cache_inv c"
  shows "cache_inv (cleanCache c) \<and>
    tileMap (cleanCache c) =
      filter (\<lambda>(k, b). b \<notin> set (take (evictCount c) (cleanable c))) (tileMap c) \<and>
    loadRequests (cleanCache c) =
      filter (\<lambda>b. b \<notin> set (take (evictCount c) (cleanable c))) (loadRequests c) \<and>
    tiles (cleanCache c) =
      (\<lambda>b. if b \<in> set (take (evictCount c) (cleanable c)) then dispose (tiles c b)
           else tiles c b)"
  unfolding cleanCache_def
  by (rule cleanLoop_char [OF assms distinct_cleanable [OF assms]]) (auto simp: set_cleanable)

lemma sortedQueue_inv:
  "cache_inv c \<Longrightarrow> cache_inv (c\<lparr>loadRequests := sort_key f (loadRequests c)\<rparr>)"
  by (simp add: cache_inv_def)

lemma processLoadRequests_funpow:
  "processLoadRequests m c =
     Inr ((loadStep ^^ nat (min (int (length (loadRequests c)))
                               (m - loadingTileCounter (tileProvider c))))
            (c\<lparr>loadRequests := sort_key (\<lambda>a. requestTime (tiles c a)) (loadRequests c)\<rparr>))"
  unfolding processLoadRequests_def Let_def
  by (subst loadLoop_funpow) simp_all

lemma cache_inv_perform:
  assumes "cache_inv c"
  shows "\<exists>c'. perform opn c = Inr c' \<and> cache_inv c'"
proof (cases opn)
  case (RetrieveTile z x y rt)
  with assms show ?thesis by (simp add: cache_inv_retrieveTile)
next
  case (UpdateRequestTime k rt)
  with assms show ?thesis by (simp add: cache_inv_updateRequestTime)
next
  case CleanCache
  with assms show ?thesis by (simp add: cleanCache_char)
next
  case (PurgeNotLoadedTiles now timeLimit)
  with assms show ?thesis by (simp add: purgeNotLoadedTiles_def purgeLoop_char)
next
  case (ProcessLoadRequests m)
  have "cache_inv ((loadStep ^^ nat (min (int (length (loadRequests c)))
                               (m - loadingTileCounter (tileProvider c))))
            (c\<lparr>loadRequests := sort_key (\<lambda>a. requestTime (tiles c a)) (loadRequests c)\<rparr>))"
    by (rule cache_inv_funpow_loadStep) (simp_all add: sortedQueue_inv assms)
  with ProcessLoadRequests show ?thesis by (simp add: processLoadRequests_funpow)
next
  case (SetTileProvider now tileprovider)
  then show ?thesis by (simp add: cache_inv_setTileProvider)
qed

lemma cache_inv_performAll:
  "cache_inv c \<Longrightarrow> \<exists>c'. performAll ops c = Inr c' \<and> cache_inv c'"
proof (induction ops arbitrary: c)
  case Nil
  then show ?case by simp
next
  case (Cons opn ops)
  from cache_inv_perform [OF Cons.prems, of opn]
  obtain c1 where 1: "perform opn c = Inr c1" and 2: "cache_inv c1" by blast
  from Cons.IH [OF 2] 1 show ?case by simp
qed

lemma cleanLoop_length:
  assumes "cache_inv c" and "distinct as" and "set as \<subseteq> snd ` set (tileMap c)"
  shows "length (tileMap (cleanLoop as c)) = length (tileMap c) - min (evictCount c) (length as)"
  using assms
proof (induction as arbitrary: c)
  case Nil
  then show ?case by simp
next
  case (Cons a rest)
  show ?case
  proof (cases "int (length (tileMap c)) > targetSize c")
    case False
    then have "evictCount c = 0" by (simp add: evictCount_def)
    with False show ?thesis by simp
  next
    case True
    let ?c1 = "cleanStep a c"
    from Cons.prems have a_in: "a \<in> snd ` set (tileMap c)" and a_rest: "a \<notin> set rest"
      and d_rest: "distinct rest" by auto
    have inv1: "cache_inv ?c1" using Cons.prems(1) a_in by (rule cache_inv_cleanStep)
    have m1: "tileMap ?c1 = filter (\<lambda>(k, b). b \<noteq> a) (tileMap c)"
      using Cons.prems(1) a_in by (rule cleanStep_tileMap)
    have len: "Suc (length (tileMap ?c1)) = length (tileMap c)"
      using Cons.prems(1) a_in by (rule cleanStep_length)
    have cnt: "evictCount c = Suc (evictCount ?c1)"
      using True len by (simp add: evictCount_def)
    have sub1: "set rest \<subseteq> snd ` set (tileMap ?c1)"
      unfolding m1 using Cons.prems(3) a_rest by force
    from Cons.IH [OF inv1 d_rest sub1] True len cnt show ?thesis by simp
  qed
qed

lemma sorted_cleanable: "sorted (map (\<lambda>a. requestTime (tiles c a)) (cleanable c))"
  by (simp add: cleanable_def)

lemma distinct_takeWhile_diff:
  assumes "distinct xs"
  shows "set xs - set (dropWhile P xs) = set (takeWhile P xs)"
proof -
  have "distinct (takeWhile P xs @ dropWhile P xs)" using assms by simp
  then have "set (takeWhile P xs) \<inter> set (dropWhile P xs) = {}" by (simp only: distinct_append)
  moreover have "set xs = set (takeWhile P xs) \<union> set (dropWhile P xs)"
    by (metis set_append takeWhile_dropWhile_id)
  ultimately show ?thesis by blast
qed

subsection \<open>More example caches\<close>

lemma cache_inv_twoTiles: "cache_inv (twoTiles p)"
  by (simp add: twoTiles_def cache_inv_retrieveTile cache_inv_new)

lemma sort_twoTiles:
  "sort_key (\<lambda>a. requestTime (tiles (twoTiles p) a)) (loadRequests (twoTiles p)) = [1, 0]"
  by (simp add: twoTiles_fields)

lemma cache_inv_sortedTiles: "cache_inv (sortedTiles p)"
  using sortedQueue_inv [OF cache_inv_twoTiles, of "\<lambda>a. requestTime (tiles (twoTiles p) a)" p]
  by (simp add: sort_twoTiles sortedTiles_def)

lemma sortedTiles_fields:
  "tileMap (sortedTiles p) = [((2, 1, 1), 0), ((2, 1, 2), 1)]"
  "loadRequests (sortedTiles p) = [1, 0]"
  "tiles (sortedTiles p) 0 = new_Tile 2 1 1 5"
  "tiles (sortedTiles p) (Suc 0) = new_Tile 2 1 2 3"
  "targetSize (sortedTiles p) = 1024"
  "tileProvider (sortedTiles p) = p"
  "loadCalls (sortedTiles p) = []"
  by (simp_all add: sortedTiles_def twoTiles_fields)

lemma dispatchedTiles_fields:
  "tileMap dispatchedTiles = [((2, 1, 1), 0), ((2, 1, 2), 1)]"
  "loadRequests dispatchedTiles = [1]"
  "tiles dispatchedTiles 0 = (new_Tile 2 1 1 5)\<lparr>state := LOADING\<rparr>"
  "tiles dispatchedTiles (Suc 0) = new_Tile 2 1 2 3"
  "targetSize dispatchedTiles = 1024"
  "loadCalls dispatchedTiles = [(0, True)]"
  by (simp_all add: dispatchedTiles_def loadStep_def loadTile_def acceptAll_def sortedTiles_fields)

lemma cache_inv_dispatchedTiles: "cache_inv dispatchedTiles"
  unfolding dispatchedTiles_def
  by (rule cache_inv_loadStep [OF cache_inv_sortedTiles]) (simp add: sortedTiles_fields)

lemma run_dispatchedTiles:
  "performAll [RetrieveTile 2 1 1 5, RetrieveTile 2 1 2 3, ProcessLoadRequests 1]
     (new_TileCache 0 acceptAll) = Inr dispatchedTiles"
proof -
  have "nat (min (int (length (loadRequests (twoTiles acceptAll))))
          (1 - loadingTileCounter (tileProvider (twoTiles acceptAll)))) = Suc 0"
    by (simp add: twoTiles_fields loadingTileCounter_def acceptAll_def)
  then have "processLoadRequests 1 (twoTiles acceptAll) = Inr dispatchedTiles"
    by (simp add: processLoadRequests_funpow sort_twoTiles dispatchedTiles_def sortedTiles_def)
  then show ?thesis by (simp add: twoTiles_def)
qed

lemma cache_inv_loadingDemo: "cache_inv loadingDemo"
  using cache_inv_dispatchedTiles by (simp add: loadingDemo_def cache_inv_def)

lemma loadingDemo_fields:
  "tileMap loadingDemo = [((2, 1, 1), 0), ((2, 1, 2), 1)]"
  "loadRequests loadingDemo = [1]"
  "tiles loadingDemo 0 = (new_Tile 2 1 1 5)\<lparr>state := LOADING\<rparr>"
  "tiles loadingDemo (Suc 0) = new_Tile 2 1 2 3"
  "targetSize loadingDemo = 0"
  by (simp_all add: loadingDemo_def dispatchedTiles_fields)

lemma loadingDemo_evicted:
  "take (evictCount loadingDemo) (cleanable loadingDemo) = [1]"
  by (simp add: evictCount_def cleanable_def loadingDemo_fields)

lemma purge_sortedTiles:
  "loadRequests (purgeNotLoadedTiles 10 6 (sortedTiles acceptAll)) = [0]"
  using purgeLoop_char [OF cache_inv_sortedTiles, of 4 acceptAll]
  by (simp add: purgeNotLoadedTiles_def sortedTiles_fields)

subsection \<open>The dispatch round\<close>

lemma funpow_loadStep_queue:
  "n \<le> length (loadRequests c) \<Longrightarrow>
   loadRequests ((loadStep ^^ n) c) =
     take (length (loadRequests c) - length (filter snd (callsOf n c))) (loadRequests c) \<and>
   map fst (filter snd (callsOf n c)) =
     rev (drop (length (loadRequests c) - length (filter snd (callsOf n c))) (loadRequests c))"
proof (induction n arbitrary: c)
  case 0
  then show ?case by simp
next
  case (Suc n)
  then obtain q a where q: "loadRequests c = q @ [a]"
    by (cases "loadRequests c" rule: rev_cases) auto
  then have ne: "loadRequests c \<noteq> []" by simp
  have le: "n \<le> length (loadRequests (loadStep c))"
    using Suc.prems loadStep_length [OF ne] by linarith
  note IH = Suc.IH [OF le]
  let ?acc = "length (filter snd (callsOf n (loadStep c)))"
  show ?case
  proof (cases "nextAnswer c")
    case False
    then have "loadRequests (loadStep c) = loadRequests c"
      using ne by (simp add: loadStep_loadRequests)
    with IH False show ?thesis by (simp add: funpow_swap1)
  next
    case True
    then have q1: "loadRequests (loadStep c) = q"
      using ne q by (simp add: loadStep_loadRequests)
    have k: "length q - ?acc \<le> length q" by simp
    from IH True q1 q show ?thesis by (simp add: funpow_swap1)
  qed
qed

lemma callsOf_declining:
  assumes "\<forall>ps t. \<not> fst (loadFn (tileProvider c) ps t)"
    and "loadRequests c \<noteq> [] \<or> n = 0"
  shows "callsOf n c = replicate n (last (loadRequests c), False) \<and>
         loadRequests ((loadStep ^^ n) c) = loadRequests c"
  using assms
proof (induction n arbitrary: c)
  case 0
  then show ?case by simp
next
  case (Suc n)
  then have ne: "loadRequests c \<noteq> []" by simp
  from Suc.prems(1) have no: "\<not> nextAnswer c" by (simp add: nextAnswer_def)
  with ne have same: "loadRequests (loadStep c) = loadRequests c"
    by (simp add: loadStep_loadRequests)
  have "\<forall>ps t. \<not> fst (loadFn (tileProvider (loadStep c)) ps t)"
    using Suc.prems(1) by simp
  moreover have "loadRequests (loadStep c) \<noteq> [] \<or> n = 0" using same ne by simp
  ultimately have "callsOf n (loadStep c) = replicate n (last (loadRequests (loadStep c)), False) \<and>
         loadRequests ((loadStep ^^ n) (loadStep c)) = loadRequests (loadStep c)"
    by (rule Suc.IH)
  with same no show ?case by (simp add: funpow_swap1)
qed

lemma processLoadRequests_round:
  "processLoadRequests m c =
     Inr ((loadStep ^^ nat (roundSize m c)) (c\<lparr>loadRequests := sortedRequests c\<rparr>))"
  by (simp add: processLoadRequests_funpow roundSize_def sortedRequests_def)

lemma roundSize_le:
  "nat (roundSize m c) \<le> length (loadRequests (c\<lparr>loadRequests := sortedRequests c\<rparr>))"
  by (simp add: roundSize_def sortedRequests_def)

lemma set_sortedRequests [simp]: "set (sortedRequests c) = set (loadRequests c)"
  by (simp add: sortedRequests_def)

lemma length_sortedRequests [simp]: "length (sortedRequests c) = length (loadRequests c)"
  by (simp add: sortedRequests_def)

lemma sorted_sortedRequests: "sorted (map (\<lambda>a. requestTime (tiles c a)) (sortedRequests c))"
  by (simp add: sortedRequests_def)

lemma accepted_set: "{a. (a, True) \<in> set calls} = set (map fst (filter snd calls))"
  by force

lemma sorted_take_drop:
  assumes "sorted (map f xs)" and "b \<in> set (take k xs)" and "a \<in> set (drop k xs)"
  shows "f b \<le> (f a :: int)"
proof -
  have "sorted (map f (take k xs) @ map f (drop k xs))"
    using assms(1) by (simp flip: map_append)
  with assms(2,3) show ?thesis by (auto simp: sorted_append)
qed

lemma last_sorted_greatest:
  assumes "sorted (map f xs)" and "b \<in> set xs"
  shows "f b \<le> (f (last xs) :: int)"
proof -
  from assms(2) have ne: "xs \<noteq> []" by auto
  then have xs: "xs = butlast xs @ [last xs]" by simp
  from assms(1) have "sorted (map f (butlast xs) @ [f (last xs)])"
    by (subst (asm) xs) simp
  then have "\<forall>x \<in> set (butlast xs). f x \<le> f (last xs)" by (auto simp: sorted_append)
  moreover from assms(2) have "b \<in> set (butlast xs) \<or> b = last xs"
    by (subst (asm) xs) auto
  ultimately show ?thesis by auto
qed

text \<open>
  A provider whose private state is the same after a refusal refuses the same tile again
  for the rest of the loop.
\<close>

lemma loadStep_declined:
  assumes "\<forall>ps t. \<not> fst (loadFn (tileProvider c) ps t) \<longrightarrow> snd (loadFn (tileProvider c) ps t) = ps"
    and "\<not> nextAnswer c" and "loadRequests c \<noteq> []"
  shows "loadStep c = c\<lparr>loadCalls := loadCalls c @ [(last (loadRequests c), False)]\<rparr>"
proof -
  let ?r = "loadFn (tileProvider c) (pstate (tileProvider c)) (tiles c (last (loadRequests c)))"
  from assms(2) have f: "\<not> fst ?r" by (simp add: nextAnswer_def)
  with assms(1) have s: "snd ?r = pstate (tileProvider c)" by blast
  from f s assms(3) show ?thesis
    by (simp add: loadStep_def loadTile_def Let_def case_prod_unfold)
qed

lemma callsOf_declined_again:
  assumes "\<forall>ps t. \<not> fst (loadFn (tileProvider c) ps t) \<longrightarrow> snd (loadFn (tileProvider c) ps t) = ps"
    and "\<not> nextAnswer c" and "loadRequests c \<noteq> []"
  shows "callsOf n c = replicate n (last (loadRequests c), False) \<and>
         loadRequests ((loadStep ^^ n) c) = loadRequests c"
  using assms
proof (induction n arbitrary: c)
  case 0
  then show ?case by simp
next
  case (Suc n)
  let ?c1 = "loadStep c"
  have eq: "?c1 = c\<lparr>loadCalls := loadCalls c @ [(last (loadRequests c), False)]\<rparr>"
    using Suc.prems by (rule loadStep_declined)
  have 1: "\<forall>ps t. \<not> fst (loadFn (tileProvider ?c1) ps t) \<longrightarrow>
      snd (loadFn (tileProvider ?c1) ps t) = ps"
    using Suc.prems(1) by simp
  have 2: "\<not> nextAnswer ?c1" using Suc.prems(2) by (simp add: eq nextAnswer_def)
  have 3: "loadRequests ?c1 \<noteq> []" using Suc.prems(3) by (simp add: eq)
  have q: "loadRequests ?c1 = loadRequests c" by (simp add: eq)
  from Suc.IH [OF 1 2 3] Suc.prems(2) show ?case by (simp add: funpow_swap1 q)
qed

lemma callsOf_steady_refusal:
  assumes "\<forall>ps t. \<not> fst (loadFn (tileProvider c) ps t) \<longrightarrow> snd (loadFn (tileProvider c) ps t) = ps"
    and "n \<le> length (loadRequests c)" and "(a, False) \<in> set (callsOf n c)"
  shows "a \<in> set (loadRequests ((loadStep ^^ n) c))"
  using assms
proof (induction n arbitrary: c)
  case 0
  then show ?case by simp
next
  case (Suc n)
  from Suc.prems(2) have ne: "loadRequests c \<noteq> []" by auto
  show ?case
  proof (cases "nextAnswer c")
    case False
    from callsOf_declined_again [OF Suc.prems(1) False ne, of "Suc n"]
    have c: "callsOf (Suc n) c = replicate (Suc n) (last (loadRequests c), False)"
      and q: "loadRequests ((loadStep ^^ Suc n) c) = loadRequests c" by blast+
    from Suc.prems(3) have "a = last (loadRequests c)" unfolding c by auto
    with ne show ?thesis unfolding q by simp
  next
    case True
    have 1: "\<forall>ps t. \<not> fst (loadFn (tileProvider (loadStep c)) ps t) \<longrightarrow>
      snd (loadFn (tileProvider (loadStep c)) ps t) = ps"
      using Suc.prems(1) by simp
    have 2: "n \<le> length (loadRequests (loadStep c))"
      using Suc.prems(2) loadStep_length [OF ne] by linarith
    from Suc.prems(3) True have 3: "(a, False) \<in> set (callsOf n (loadStep c))" by simp
    from Suc.IH [OF 1 2 3] show ?thesis by (simp add: funpow_swap1)
  qed
qed

subsection \<open>Dispatch rounds of the example caches\<close>

lemma sortedRequests_twoTiles: "sortedRequests (twoTiles p) = [1, 0]"
  by (simp add: sortedRequests_def sort_twoTiles)

lemma roundSize_twoTiles:
  "loadingTileCounter p = 0 \<Longrightarrow> roundSize m (twoTiles p) = min 2 m"
  by (simp add: roundSize_def twoTiles_fields)

lemma round_twoTiles_2:
  assumes "loadingTileCounter p = 0"
  shows "processLoadRequests 2 (twoTiles p) = Inr (loadStep (loadStep (sortedTiles p)))"
proof -
  have "nat (roundSize 2 (twoTiles p)) = Suc (Suc 0)"
    using assms by (simp add: roundSize_twoTiles)
  then show ?thesis
    by (simp add: processLoadRequests_round sortedRequests_twoTiles sortedTiles_def)
qed

lemma round_twoTiles_0:
  assumes "loadingTileCounter p = 0"
  shows "processLoadRequests 0 (twoTiles p) = Inr (sortedTiles p)"
proof -
  have "nat (roundSize 0 (twoTiles p)) = 0"
    using assms by (simp add: roundSize_twoTiles)
  then show ?thesis
    by (simp add: processLoadRequests_round sortedRequests_twoTiles sortedTiles_def)
qed

lemma refusedOnce_fields:
  "loadRequests refusedOnce = [1]"
  "loadCalls refusedOnce = [(0, False), (0, True)]"
  "state (tiles refusedOnce 0) = LOADING"
  by (simp_all add: refusedOnce_def loadStep_def loadTile_def declineOnce_def sortedTiles_fields)

lemma refusedTwice_fields:
  "loadRequests refusedTwice = [1, 0]"
  "loadCalls refusedTwice = [(0, False), (0, False)]"
  by (simp_all add: refusedTwice_def loadStep_def loadTile_def declineAll_def sortedTiles_fields)

lemma acceptedBoth_fields:
  "loadRequests acceptedBoth = []"
  "loadCalls acceptedBoth = [(0, True), (1, True)]"
  by (simp_all add: acceptedBoth_def loadStep_def loadTile_def acceptAll_def sortedTiles_fields)

lemma counter_examples [simp]:
  "loadingTileCounter acceptAll = 0"
  "loadingTileCounter declineAll = 0"
  "loadingTileCounter declineOnce = 0"
  by (simp_all add: loadingTileCounter_def acceptAll_def declineAll_def declineOnce_def)

lemma round_refusedOnce: "processLoadRequests 2 (twoTiles declineOnce) = Inr refusedOnce"
  by (simp add: round_twoTiles_2 refusedOnce_def)

lemma round_refusedTwice: "processLoadRequests 2 (twoTiles declineAll) = Inr refusedTwice"
  by (simp add: round_twoTiles_2 refusedTwice_def)

lemma round_acceptedBoth: "processLoadRequests 2 (twoTiles acceptAll) = Inr acceptedBoth"
  by (simp add: round_twoTiles_2 acceptedBoth_def)

lemma round_sortedTiles: "processLoadRequests 0 (twoTiles acceptAll) = Inr (sortedTiles acceptAll)"
  by (simp add: round_twoTiles_0)

section \<open>The claims\<close>

subsection \<open>C1: repeated requests of one tile\<close>

text \<open>
  C1, as stated, fails in its last part: after requests of one tile with the times 10 and
  then 5, both calls return the one new tile, but its requestTime is 5 and not the maximum.
\<close>

theorem retrieveAll_not_maximum:
  "getTileFromCache (createKey 2 1 3) (twoTiles acceptAll) = None \<and>
   fst (retrieveAll 2 1 3 [10, 5] (twoTiles acceptAll)) = [2, 2] \<and>
   requestTime (tiles (snd (retrieveAll 2 1 3 [10, 5] (twoTiles acceptAll))) 2) = 5 \<and>
   requestTime (tiles (snd (retrieveAll 2 1 3 [10, 5] (twoTiles acceptAll))) 2) \<noteq>
     Max (set [10, 5])"
  by (simp add: getTileFromCache_def createKey_def twoTiles_fields retrieveTile_def Let_def)

text \<open>
  C1, amended. For a key that is not in the store, a sequence of \<^verbatim>\<open>retrieveTile\<close>
  calls with that key creates exactly one tile, every call returns that tile, the key is
  bound to it afterwards, and its requestTime is the time passed to the last call; that is
  the maximum of the times passed when they do not decrease along the sequence.
\<close>

theorem retrieveAll_one_tile:
  assumes "getTileFromCache (createKey z x y) c = None"
  shows "nalloc (snd (retrieveAll z x y (rt # rts) c)) = Suc (nalloc c) \<and>
         fst (retrieveAll z x y (rt # rts) c) = replicate (Suc (length rts)) (nalloc c) \<and>
         getTileFromCache (createKey z x y) (snd (retrieveAll z x y (rt # rts) c)) =
           Some (nalloc c) \<and>
         requestTime (tiles (snd (retrieveAll z x y (rt # rts) c)) (nalloc c)) = last (rt # rts) \<and>
         (sorted (rt # rts) \<longrightarrow>
            requestTime (tiles (snd (retrieveAll z x y (rt # rts) c)) (nalloc c)) =
              Max (set (rt # rts)))"
proof -
  let ?c1 = "snd (retrieveTile z x y rt c)"
  from assms have r: "fst (retrieveTile z x y rt c) = nalloc c"
    and g: "getTileFromCache (createKey z x y) ?c1 = Some (nalloc c)"
    and n: "nalloc ?c1 = Suc (nalloc c)" and t: "requestTime (tiles ?c1 (nalloc c)) = rt"
    by (simp_all add: retrieveTile_def Let_def getTileFromCache_def update_conv')
  have main: "nalloc (snd (retrieveAll z x y (rt # rts) c)) = Suc (nalloc c) \<and>
         fst (retrieveAll z x y (rt # rts) c) = replicate (Suc (length rts)) (nalloc c) \<and>
         getTileFromCache (createKey z x y) (snd (retrieveAll z x y (rt # rts) c)) =
           Some (nalloc c) \<and>
         requestTime (tiles (snd (retrieveAll z x y (rt # rts) c)) (nalloc c)) = last (rt # rts)"
    using retrieveAll_present [OF g, of rts] r n t by (simp add: case_prod_unfold Let_def)
  moreover have "sorted (rt # rts) \<Longrightarrow> last (rt # rts) = Max (set (rt # rts))"
    by (rule last_sorted_Max) simp_all
  ultimately show ?thesis by presburger
qed

theorem retrieveAll_one_tile_witness:
  "getTileFromCache (createKey 2 1 3) (twoTiles acceptAll) = None \<and>
   sorted [7, 8, 9 :: int] \<and>
   nalloc (snd (retrieveAll 2 1 3 [7, 8, 9] (twoTiles acceptAll))) = 3 \<and>
   fst (retrieveAll 2 1 3 [7, 8, 9] (twoTiles acceptAll)) = [2, 2, 2] \<and>
   requestTime (tiles (snd (retrieveAll 2 1 3 [7, 8, 9] (twoTiles acceptAll))) 2) = 9 \<and>
   Max (set [7, 8, 9 :: int]) = 9"
proof -
  have h: "getTileFromCache (createKey 2 1 3) (twoTiles acceptAll) = None"
    by (simp add: getTileFromCache_def createKey_def twoTiles_fields)
  from h retrieveAll_one_tile [OF h, of 7 "[8, 9]"] show ?thesis
    by (simp add: twoTiles_fields)
qed

subsection \<open>C2: completions that predate the provider reset\<close>

text \<open>
  C2. Let the provider be set at time \<open>T\<close> and let any operations follow that do not set
  it again. When the provider then reports the tile \<open>a\<close> as loaded: if the tile's
  requestTime is below \<open>T\<close>, the tile is put in state Error and
  \<^verbatim>\<open>tileCachedHandler\<close> is not invoked (the list of its invocations is unchanged);
  if the requestTime is at least \<open>T\<close>, the handler is invoked with that tile and no tile
  changes.
\<close>

theorem tileLoaded_rejects_stale:
  assumes "performAll ops (setTileProvider T p c) = Inr c'"
    and "\<forall>opn \<in> set ops. \<not> isSetTileProvider opn"
  shows "(requestTime (tiles c' a) < T \<longrightarrow>
            state (tiles (tileLoaded a c') a) = ERROR \<and>
            cachedCalls (tileLoaded a c') = cachedCalls c') \<and>
         (T \<le> requestTime (tiles c' a) \<longrightarrow>
            cachedCalls (tileLoaded a c') = cachedCalls c' @ [a] \<and>
            tiles (tileLoaded a c') = tiles c')"
proof -
  have "tileProviderResetTime c' = tileProviderResetTime (setTileProvider T p c)"
    using assms by (rule performAll_resetTime)
  then have "tileProviderResetTime c' = T" by (simp add: setTileProvider_def)
  then show ?thesis by (simp add: tileLoaded_def)
qed

theorem tileLoaded_rejects_stale_witness:
  "performAll [RetrieveTile 2 1 1 25] (setTileProvider 20 acceptAll (twoTiles acceptAll)) =
     Inr staleDemo \<and>
   requestTime (tiles staleDemo 0) < 20 \<and>
   state (tiles (tileLoaded 0 staleDemo) 0) = ERROR \<and>
   cachedCalls (tileLoaded 0 staleDemo) = [] \<and>
   20 \<le> requestTime (tiles staleDemo 2) \<and>
   cachedCalls (tileLoaded 2 staleDemo) = [2]"
proof -
  have run: "performAll [RetrieveTile 2 1 1 25]
      (setTileProvider 20 acceptAll (twoTiles acceptAll)) = Inr staleDemo"
    by (simp add: staleDemo_def)
  have no: "\<forall>opn \<in> set [RetrieveTile 2 1 1 25 :: unit operation]. \<not> isSetTileProvider opn"
    by simp
  note th = tileLoaded_rejects_stale [OF run no]
  from th [of 0] th [of 2] run show ?thesis by (simp add: staleDemo_fields)
qed

subsection \<open>C3: eviction\<close>

text \<open>
  C3. In a cache that satisfies the invariant, \<^verbatim>\<open>cleanCache\<close> removes from the
  store exactly the first \<open>evictCount\<close> entries of \<open>cleanable\<close> (all of them if there
  are fewer), that is of the tiles of the store in state Loaded, Preparing or Error in
  ascending order of requestTime; the removed tiles leave the queue as well and are
  disposed, no removed tile is in state Loading and no other tile changes. The loop
  stops as soon as the size is at most the target, so afterwards the size is at most the
  target or only Loading tiles remain; hence, when the size was above the target, the size
  is at most the target afterwards unless the Loading tiles that remain exceed it on
  their own.
\<close>

theorem cleanCache_evicts:
  assumes "cache_inv c"
  shows
   "tileMap (cleanCache c) =
      filter (\<lambda>(k, a). a \<notin> set (take (evictCount c) (cleanable c))) (tileMap c) \<and>
    loadRequests (cleanCache c) =
      filter (\<lambda>a. a \<notin> set (take (evictCount c) (cleanable c))) (loadRequests c) \<and>
    (\<forall>a \<in> set (take (evictCount c) (cleanable c)).
       state (tiles c a) \<noteq> LOADING \<and> tiles (cleanCache c) a = dispose (tiles c a)) \<and>
    (\<forall>a. a \<notin> set (take (evictCount c) (cleanable c)) \<longrightarrow> tiles (cleanCache c) a = tiles c a) \<and>
    set (cleanable c) =
      {a \<in> snd ` set (tileMap c). state (tiles c a) \<in> {LOADED, PREPARING, ERROR}} \<and>
    sorted (map (\<lambda>a. requestTime (tiles c a)) (cleanable c)) \<and>
    length (tileMap (cleanCache c)) =
      length (tileMap c) - min (evictCount c) (length (cleanable c)) \<and>
    (int (length (tileMap (cleanCache c))) \<le> targetSize c \<or>
     (\<forall>(k, a) \<in> set (tileMap (cleanCache c)). state (tiles (cleanCache c) a) = LOADING)) \<and>
    (targetSize c < int (length (tileMap c)) \<longrightarrow>
       int (length (tileMap (cleanCache c))) \<le> targetSize c \<or>
       targetSize c < int (length (filter (\<lambda>(k, a). state (tiles (cleanCache c) a) = LOADING)
                                    (tileMap (cleanCache c)))))"
proof -
  let ?removed = "take (evictCount c) (cleanable c)"
  note ch = cleanCache_char [OF assms]
  have m: "tileMap (cleanCache c) = filter (\<lambda>(k, a). a \<notin> set ?removed) (tileMap c)"
    and q: "loadRequests (cleanCache c) = filter (\<lambda>a. a \<notin> set ?removed) (loadRequests c)"
    and t: "tiles (cleanCache c) =
      (\<lambda>b. if b \<in> set ?removed then dispose (tiles c b) else tiles c b)"
    using ch by blast+
  have sub: "set ?removed \<subseteq> set (cleanable c)" by (rule set_take_subset)
  have r: "\<forall>a \<in> set ?removed.
       state (tiles c a) \<noteq> LOADING \<and> tiles (cleanCache c) a = dispose (tiles c a)"
    using sub by (auto simp: t set_cleanable)
  have k: "\<forall>a. a \<notin> set ?removed \<longrightarrow> tiles (cleanCache c) a = tiles c a"
    by (simp add: t)
  have cand: "set (cleanable c) =
      {a \<in> snd ` set (tileMap c). state (tiles c a) \<in> {LOADED, PREPARING, ERROR}}"
    by (auto simp: cleanable_def)
  have len: "length (tileMap (cleanCache c)) =
      length (tileMap c) - min (evictCount c) (length (cleanable c))"
    unfolding cleanCache_def
    by (rule cleanLoop_length [OF assms distinct_cleanable [OF assms]])
       (auto simp: set_cleanable)
  have stop: "int (length (tileMap (cleanCache c))) \<le> targetSize c \<or>
     (\<forall>(k, a) \<in> set (tileMap (cleanCache c)). state (tiles (cleanCache c) a) = LOADING)"
  proof (cases "evictCount c \<le> length (cleanable c)")
    case True
    with len have "length (tileMap (cleanCache c)) = length (tileMap c) - evictCount c"
      by (simp add: min_def)
    moreover have "length (cleanable c) \<le> length (tileMap c)"
      by (simp add: cleanable_def)
    ultimately have "int (length (tileMap (cleanCache c))) \<le> targetSize c"
      using True unfolding evictCount_def by linarith
    then show ?thesis ..
  next
    case False
    then have all: "?removed = cleanable c" by simp
    have "\<forall>(k, a) \<in> set (tileMap (cleanCache c)). state (tiles (cleanCache c) a) = LOADING"
      unfolding m t all by (force simp: set_cleanable)
    then show ?thesis ..
  qed
  have cons: "targetSize c < int (length (tileMap c)) \<longrightarrow>
       int (length (tileMap (cleanCache c))) \<le> targetSize c \<or>
       targetSize c < int (length (filter (\<lambda>(k, a). state (tiles (cleanCache c) a) = LOADING)
                                    (tileMap (cleanCache c))))"
  proof (cases "int (length (tileMap (cleanCache c))) \<le> targetSize c")
    case True
    then show ?thesis by simp
  next
    case False
    with stop
    have "\<forall>(k, a) \<in> set (tileMap (cleanCache c)). state (tiles (cleanCache c) a) = LOADING"
      by blast
    then have "filter (\<lambda>(k, a). state (tiles (cleanCache c) a) = LOADING) (tileMap (cleanCache c))
      = tileMap (cleanCache c)" by (auto simp: filter_id_conv)
    with False show ?thesis by simp
  qed
  from m q r k cand sorted_cleanable len stop cons show ?thesis by blast
qed

theorem cleanCache_evicts_witness:
  "cache_inv loadingDemo \<and>
   targetSize loadingDemo < int (length (tileMap loadingDemo)) \<and>
   state (tiles loadingDemo 0) = LOADING \<and>
   tileMap (cleanCache loadingDemo) = [((2, 1, 1), 0)] \<and>
   loadRequests (cleanCache loadingDemo) = [] \<and>
   tiles (cleanCache loadingDemo) 1 = dispose (tiles loadingDemo 1) \<and>
   tiles (cleanCache loadingDemo) 0 = tiles loadingDemo 0 \<and>
   \<not> int (length (tileMap (cleanCache loadingDemo))) \<le> targetSize loadingDemo \<and>
   targetSize loadingDemo <
     int (length (filter (\<lambda>(k, a). state (tiles (cleanCache loadingDemo) a) = LOADING)
                    (tileMap (cleanCache loadingDemo))))"
proof -
  note th = cleanCache_evicts [OF cache_inv_loadingDemo, unfolded loadingDemo_evicted]
  from th have m: "tileMap (cleanCache loadingDemo) = [((2, 1, 1), 0)]"
    by (simp add: loadingDemo_fields)
  from th have q: "loadRequests (cleanCache loadingDemo) = []"
    by (simp add: loadingDemo_fields)
  from th have t1: "tiles (cleanCache loadingDemo) 1 = dispose (tiles loadingDemo 1)"
    by simp
  from th have t0: "tiles (cleanCache loadingDemo) 0 = tiles loadingDemo 0"
    by simp
  from m q t1 t0 cache_inv_loadingDemo show ?thesis by (simp add: loadingDemo_fields)
qed

subsection \<open>C4: one dispatch round\<close>

text \<open>
  C4, as stated, fails in its second part: a tile that the provider declines is offered
  again by the next iteration of the same round, and when the provider then takes it, it
  is not in the queue at the end of the round. Here the provider declines the tile 0 on
  the first call and accepts it on the second.
\<close>

theorem declined_then_accepted:
  "processLoadRequests 2 (twoTiles declineOnce) = Inr refusedOnce \<and>
   loadCalls (twoTiles declineOnce) = [] \<and>
   loadCalls refusedOnce = [(0, False), (0, True)] \<and>
   0 \<notin> set (loadRequests refusedOnce)"
  by (simp add: round_refusedOnce refusedOnce_fields twoTiles_fields)

text \<open>
  C4, amended. One call of \<^verbatim>\<open>processLoadRequests\<close> with the argument
  \<open>m\<close> always returns and calls \<^verbatim>\<open>loadTile\<close> exactly \<open>nat (roundSize m c)\<close> times:
  at most as often as the queue is long and at most \<open>m\<close> minus the provider's counter
  (never when that is negative). A tile that the provider declines is in the queue when the
  round ends unless a later call of the same round accepts it, and always when a refusal
  leaves the provider's private state as it was; and no tile is dropped: every tile of the
  queue is afterwards in the queue or was accepted.
\<close>

theorem dispatch_round:
  "\<exists>c' calls. processLoadRequests m c = Inr c' \<and> loadCalls c' = loadCalls c @ calls \<and>
     length calls = nat (roundSize m c) \<and>
     length calls \<le> length (loadRequests c) \<and>
     int (length calls) \<le> max 0 (m - loadingTileCounter (tileProvider c)) \<and>
     (\<forall>pre a post. calls = pre @ (a, False) # post \<longrightarrow>
        a \<in> set (loadRequests c') \<or> (a, True) \<in> set post) \<and>
     ((\<forall>ps t. \<not> fst (loadFn (tileProvider c) ps t) \<longrightarrow>
                snd (loadFn (tileProvider c) ps t) = ps) \<longrightarrow>
        (\<forall>a. (a, False) \<in> set calls \<longrightarrow> a \<in> set (loadRequests c'))) \<and>
     set (loadRequests c) = set (loadRequests c') \<union> {a. (a, True) \<in> set calls}"
proof -
  let ?c1 = "c\<lparr>loadRequests := sortedRequests c\<rparr>"
  let ?n = "nat (roundSize m c)"
  let ?c' = "(loadStep ^^ ?n) ?c1"
  let ?calls = "callsOf ?n ?c1"
  have le: "?n \<le> length (loadRequests ?c1)" by (rule roundSize_le)
  have run: "processLoadRequests m c = Inr ?c'" by (rule processLoadRequests_round)
  have log: "loadCalls ?c' = loadCalls c @ ?calls" by (simp add: funpow_loadStep_loadCalls)
  have len: "length ?calls = ?n" by simp
  have b1: "length ?calls \<le> length (loadRequests c)" using le by simp
  have b2: "int (length ?calls) \<le> max 0 (m - loadingTileCounter (tileProvider c))"
    by (simp add: roundSize_def)
  have refused: "\<forall>pre a post. ?calls = pre @ (a, False) # post \<longrightarrow>
        a \<in> set (loadRequests ?c') \<or> (a, True) \<in> set post"
    using callsOf_refused [OF le] by blast
  have steady: "(\<forall>ps t. \<not> fst (loadFn (tileProvider c) ps t) \<longrightarrow>
                snd (loadFn (tileProvider c) ps t) = ps) \<longrightarrow>
        (\<forall>a. (a, False) \<in> set ?calls \<longrightarrow> a \<in> set (loadRequests ?c'))"
  proof (intro impI allI)
    fix a
    assume "\<forall>ps t. \<not> fst (loadFn (tileProvider c) ps t) \<longrightarrow>
                snd (loadFn (tileProvider c) ps t) = ps"
    then have "\<forall>ps t. \<not> fst (loadFn (tileProvider ?c1) ps t) \<longrightarrow>
                snd (loadFn (tileProvider ?c1) ps t) = ps" by simp
    moreover assume "(a, False) \<in> set ?calls"
    ultimately show "a \<in> set (loadRequests ?c')"
      using le by (intro callsOf_steady_refusal)
  qed
  note qs = funpow_loadStep_queue [OF le]
  let ?k = "length (loadRequests ?c1) - length (filter snd ?calls)"
  have "set (loadRequests ?c1) = set (take ?k (loadRequests ?c1)) \<union> set (drop ?k (loadRequests ?c1))"
    by (metis append_take_drop_id set_append)
  also have "\<dots> = set (loadRequests ?c') \<union> set (map fst (filter snd ?calls))"
    using qs by simp
  finally have kept: "set (loadRequests c) = set (loadRequests ?c') \<union> {a. (a, True) \<in> set ?calls}"
    by (simp add: accepted_set)
  from run log len b1 b2 refused steady kept show ?thesis by blast
qed

theorem dispatch_round_witness:
  "processLoadRequests 2 (twoTiles declineAll) = Inr refusedTwice \<and>
   loadCalls refusedTwice = loadCalls (twoTiles declineAll) @ [(0, False), (0, False)] \<and>
   length [(0 :: nat, False), (0, False)] \<le> length (loadRequests (twoTiles declineAll)) \<and>
   int (length [(0 :: nat, False), (0, False)]) \<le>
     max 0 (2 - loadingTileCounter (tileProvider (twoTiles declineAll))) \<and>
   (0 :: nat, False) \<in> set [(0, False), (0, False)] \<and>
   0 \<in> set (loadRequests refusedTwice) \<and>
   set (loadRequests (twoTiles declineAll)) = set (loadRequests refusedTwice)"
proof -
  from dispatch_round [of 2 "twoTiles declineAll"]
  obtain c' calls where run: "processLoadRequests 2 (twoTiles declineAll) = Inr c'"
    and log: "loadCalls c' = loadCalls (twoTiles declineAll) @ calls"
    and b1: "length calls \<le> length (loadRequests (twoTiles declineAll))"
    and b2: "int (length calls) \<le>
       max 0 (2 - loadingTileCounter (tileProvider (twoTiles declineAll)))"
    and refused: "\<forall>pre a post. calls = pre @ (a, False) # post \<longrightarrow>
        a \<in> set (loadRequests c') \<or> (a, True) \<in> set post"
    and steady: "(\<forall>ps t. \<not> fst (loadFn (tileProvider (twoTiles declineAll)) ps t) \<longrightarrow>
                snd (loadFn (tileProvider (twoTiles declineAll)) ps t) = ps) \<longrightarrow>
        (\<forall>a. (a, False) \<in> set calls \<longrightarrow> a \<in> set (loadRequests c'))"
    and kept: "set (loadRequests (twoTiles declineAll)) =
        set (loadRequests c') \<union> {a. (a, True) \<in> set calls}"
    by blast
  from run have c': "c' = refusedTwice" by (simp only: round_refusedTwice sum.inject)
  from log have calls: "calls = [(0, False), (0, False)]"
    by (simp add: c' refusedTwice_fields twoTiles_fields)
  from refused [rule_format, of "[(0, False)]" 0 "[]"]
  have in_q: "0 \<in> set (loadRequests refusedTwice)" by (simp add: calls c')
  have "\<forall>ps t. \<not> fst (loadFn (tileProvider (twoTiles declineAll)) ps t) \<longrightarrow>
                snd (loadFn (tileProvider (twoTiles declineAll)) ps t) = ps"
    by (simp add: twoTiles_fields declineAll_def)
  with steady have "(0, False) \<in> set calls \<longrightarrow> 0 \<in> set (loadRequests c')" by blast
  then have in_q': "(0 :: nat, False) \<in> set [(0, False), (0, False)] \<and>
      0 \<in> set (loadRequests refusedTwice)"
    by (simp add: calls c')
  have "{a. (a, True) \<in> set calls} = {}" by (simp add: calls)
  with kept have k: "set (loadRequests (twoTiles declineAll)) = set (loadRequests refusedTwice)"
    by (simp add: c')
  have 1: "processLoadRequests 2 (twoTiles declineAll) = Inr refusedTwice"
    using run unfolding c' .
  have 2: "loadCalls refusedTwice = loadCalls (twoTiles declineAll) @ [(0, False), (0, False)]"
    using log unfolding c' calls .
  have 3: "length [(0 :: nat, False), (0, False)] \<le> length (loadRequests (twoTiles declineAll))"
    using b1 unfolding calls .
  have 4: "int (length [(0 :: nat, False), (0, False)]) \<le>
     max 0 (2 - loadingTileCounter (tileProvider (twoTiles declineAll)))"
    using b2 unfolding calls .
  from 1 2 3 4 in_q in_q' k show ?thesis by blast
qed

subsection \<open>C5: the order of dispatch\<close>

text \<open>
  C5, as stated, fails twice. With \<open>n \<le> 0\<close> the call is not without effect: the queue
  is sorted before \<open>n\<close> is computed, so the queue 0, 1 becomes 1, 0. And the \<open>n\<close>
  entries popped need not be distinct: with a provider that declines, both pops of a round
  with \<open>n = 2\<close> take the tile 0.
\<close>

theorem dispatch_sorts_and_reoffers:
  "roundSize 0 (twoTiles acceptAll) \<le> 0 \<and>
   processLoadRequests 0 (twoTiles acceptAll) = Inr (sortedTiles acceptAll) \<and>
   loadRequests (twoTiles acceptAll) = [0, 1] \<and>
   loadRequests (sortedTiles acceptAll) = [1, 0] \<and>
   roundSize 2 (twoTiles declineAll) = 2 \<and>
   processLoadRequests 2 (twoTiles declineAll) = Inr refusedTwice \<and>
   loadCalls (twoTiles declineAll) = [] \<and>
   loadCalls refusedTwice = [(0, False), (0, False)]"
  by (simp add: round_sortedTiles round_refusedTwice roundSize_twoTiles
      refusedTwice_fields twoTiles_fields sortedTiles_fields)

text \<open>
  C5, amended. \<^verbatim>\<open>processLoadRequests\<close> first sorts the whole queue ascending by
  requestTime, also when \<open>n \<le> 0\<close>, and computes
  \<open>n = min(queue length, tilesToBeLoading - loadingTileCounter)\<close>. If \<open>n \<le> 0\<close>
  nothing else changes. Otherwise it pops \<open>n\<close> times from the tail and hands each popped
  tile to the provider; when the provider accepts every tile offered, these are the last
  \<open>n\<close> entries of the sorted queue, most recently requested first (no tile left in the
  queue has a higher requestTime, and they are distinct when the queue is), and the rest of
  the sorted queue remains.
\<close>

theorem dispatch_order:
  "\<exists>c' calls. processLoadRequests m c = Inr c' \<and> loadCalls c' = loadCalls c @ calls \<and>
     length calls = nat (roundSize m c) \<and>
     sorted (map (\<lambda>a. requestTime (tiles c a)) (sortedRequests c)) \<and>
     (roundSize m c \<le> 0 \<longrightarrow> c' = c\<lparr>loadRequests := sortedRequests c\<rparr>) \<and>
     ((\<forall>x \<in> set calls. snd x) \<longrightarrow>
        map fst calls = rev (drop (length (loadRequests c) - length calls) (sortedRequests c)) \<and>
        loadRequests c' = take (length (loadRequests c) - length calls) (sortedRequests c) \<and>
        (\<forall>a \<in> set (map fst calls). \<forall>b \<in> set (loadRequests c').
           requestTime (tiles c b) \<le> requestTime (tiles c a)) \<and>
        sorted (rev (map (\<lambda>a. requestTime (tiles c a)) (map fst calls))) \<and>
        (distinct (loadRequests c) \<longrightarrow> distinct (map fst calls)))"
proof -
  let ?c1 = "c\<lparr>loadRequests := sortedRequests c\<rparr>"
  let ?n = "nat (roundSize m c)"
  let ?c' = "(loadStep ^^ ?n) ?c1"
  let ?calls = "callsOf ?n ?c1"
  let ?f = "\<lambda>a. requestTime (tiles c a)"
  have le: "?n \<le> length (loadRequests ?c1)" by (rule roundSize_le)
  have run: "processLoadRequests m c = Inr ?c'" by (rule processLoadRequests_round)
  have log: "loadCalls ?c' = loadCalls c @ ?calls" by (simp add: funpow_loadStep_loadCalls)
  have len: "length ?calls = ?n" by simp
  have srt: "sorted (map ?f (sortedRequests c))" by (rule sorted_sortedRequests)
  have idle: "roundSize m c \<le> 0 \<longrightarrow> ?c' = ?c1" by simp
  have acc: "map fst ?calls = rev (drop (length (loadRequests c) - length ?calls) (sortedRequests c)) \<and>
        loadRequests ?c' = take (length (loadRequests c) - length ?calls) (sortedRequests c) \<and>
        (\<forall>a \<in> set (map fst ?calls). \<forall>b \<in> set (loadRequests ?c'). ?f b \<le> ?f a) \<and>
        sorted (rev (map ?f (map fst ?calls))) \<and>
        (distinct (loadRequests c) \<longrightarrow> distinct (map fst ?calls))"
    if all: "\<forall>x \<in> set ?calls. snd x"
  proof -
    let ?k = "length (loadRequests c) - length ?calls"
    from all have fl: "filter snd ?calls = ?calls" by (simp add: filter_id_conv)
    from funpow_loadStep_queue [OF le]
    have o: "map fst ?calls = rev (drop ?k (sortedRequests c))"
      and r: "loadRequests ?c' = take ?k (sortedRequests c)"
      unfolding fl by simp_all
    have hi: "\<forall>a \<in> set (map fst ?calls). \<forall>b \<in> set (loadRequests ?c'). ?f b \<le> ?f a"
      unfolding o r using sorted_take_drop [OF srt] by auto
    have "sorted (map ?f (drop ?k (sortedRequests c)))"
      using srt by (simp flip: drop_map)
    then have desc: "sorted (rev (map ?f (map fst ?calls)))"
      unfolding o by (simp add: rev_map)
    have "distinct (loadRequests c) \<longrightarrow> distinct (map fst ?calls)"
      unfolding o by (simp add: sortedRequests_def)
    with o r hi desc show ?thesis by blast
  qed
  from run log len srt idle acc show ?thesis by blast
qed

theorem dispatch_order_witness:
  "roundSize 0 (twoTiles acceptAll) \<le> 0 \<and>
   processLoadRequests 0 (twoTiles acceptAll) =
     Inr ((twoTiles acceptAll)\<lparr>loadRequests := sortedRequests (twoTiles acceptAll)\<rparr>) \<and>
   processLoadRequests 2 (twoTiles acceptAll) = Inr acceptedBoth \<and>
   loadCalls acceptedBoth = loadCalls (twoTiles acceptAll) @ [(0, True), (1, True)] \<and>
   map fst [(0 :: nat, True), (1, True)] = rev (drop 0 (sortedRequests (twoTiles acceptAll))) \<and>
   loadRequests acceptedBoth = take 0 (sortedRequests (twoTiles acceptAll)) \<and>
   distinct (loadRequests (twoTiles acceptAll)) \<and>
   distinct (map fst [(0 :: nat, True), (1, True)])"
proof -
  from dispatch_order [of 0 "twoTiles acceptAll"]
  obtain c0 where run0: "processLoadRequests 0 (twoTiles acceptAll) = Inr c0"
    and idle: "roundSize 0 (twoTiles acceptAll) \<le> 0 \<longrightarrow>
      c0 = (twoTiles acceptAll)\<lparr>loadRequests := sortedRequests (twoTiles acceptAll)\<rparr>"
    by blast
  have n0: "roundSize 0 (twoTiles acceptAll) \<le> 0" by (simp add: roundSize_twoTiles)
  with idle run0 have first: "processLoadRequests 0 (twoTiles acceptAll) =
     Inr ((twoTiles acceptAll)\<lparr>loadRequests := sortedRequests (twoTiles acceptAll)\<rparr>)"
    by simp
  from dispatch_order [of 2 "twoTiles acceptAll"]
  obtain c' calls where run: "processLoadRequests 2 (twoTiles acceptAll) = Inr c'"
    and log: "loadCalls c' = loadCalls (twoTiles acceptAll) @ calls"
    and acc: "(\<forall>x \<in> set calls. snd x) \<longrightarrow>
        map fst calls =
          rev (drop (length (loadRequests (twoTiles acceptAll)) - length calls)
                 (sortedRequests (twoTiles acceptAll))) \<and>
        loadRequests c' =
          take (length (loadRequests (twoTiles acceptAll)) - length calls)
            (sortedRequests (twoTiles acceptAll)) \<and>
        (distinct (loadRequests (twoTiles acceptAll)) \<longrightarrow> distinct (map fst calls))"
    by blast
  from run have c': "c' = acceptedBoth" by (simp only: round_acceptedBoth sum.inject)
  from log have calls: "calls = [(0, True), (1, True)]"
    by (simp add: c' acceptedBoth_fields twoTiles_fields)
  have d: "distinct (loadRequests (twoTiles acceptAll))" by (simp add: twoTiles_fields)
  have all: "\<forall>x \<in> set calls. snd x" by (simp add: calls)
  have k: "length (loadRequests (twoTiles acceptAll)) - length calls = 0"
    by (simp add: calls twoTiles_fields)
  from acc all d have X: "map fst calls =
          rev (drop (length (loadRequests (twoTiles acceptAll)) - length calls)
                 (sortedRequests (twoTiles acceptAll))) \<and>
        loadRequests c' =
          take (length (loadRequests (twoTiles acceptAll)) - length calls)
            (sortedRequests (twoTiles acceptAll)) \<and>
        distinct (map fst calls)"
    by blast
  note Y = X [unfolded k]
  have 1: "processLoadRequests 2 (twoTiles acceptAll) = Inr acceptedBoth"
    using run unfolding c' .
  have 2: "loadCalls acceptedBoth = loadCalls (twoTiles acceptAll) @ [(0, True), (1, True)]"
    using log unfolding c' calls .
  have 3: "map fst [(0 :: nat, True), (1, True)] =
      rev (drop 0 (sortedRequests (twoTiles acceptAll)))"
    using Y unfolding calls by (rule conjunct1)
  have 4: "loadRequests acceptedBoth = take 0 (sortedRequests (twoTiles acceptAll))"
    using Y unfolding c' by blast
  have 5: "distinct (map fst [(0 :: nat, True), (1, True)])"
    using Y unfolding calls by blast
  from n0 first 1 2 3 4 d 5 show ?thesis by blast
qed

subsection \<open>C6: purging the queue\<close>

text \<open>
  C6. In a cache that satisfies the invariant, every tile that
  \<^verbatim>\<open>purgeNotLoadedTiles(timeLimit)\<close> takes from the queue has a requestTime below
  now minus timeLimit, is afterwards absent from the store (no entry refers to it and its
  key is unbound) and is disposed; the store loses these tiles only, and the queue loses a
  front segment.
\<close>

theorem purge_removes_only_stale:
  assumes "cache_inv c"
  shows
   "(\<forall>a \<in> set (loadRequests c) - set (loadRequests (purgeNotLoadedTiles now timeLimit c)).
       requestTime (tiles c a) < now - timeLimit \<and>
       a \<notin> snd ` set (tileMap (purgeNotLoadedTiles now timeLimit c)) \<and>
       getTileFromCache (getKey (tiles c a)) (purgeNotLoadedTiles now timeLimit c) = None \<and>
       image (tiles (purgeNotLoadedTiles now timeLimit c) a) = None) \<and>
    set (tileMap (purgeNotLoadedTiles now timeLimit c)) =
      {(k, a) \<in> set (tileMap c).
         a \<notin> set (loadRequests c) - set (loadRequests (purgeNotLoadedTiles now timeLimit c))} \<and>
    (\<exists>removed. loadRequests c = removed @ loadRequests (purgeNotLoadedTiles now timeLimit c))"
proof -
  let ?P = "\<lambda>a. requestTime (tiles c a) < now - timeLimit"
  let ?c' = "purgeNotLoadedTiles now timeLimit c"
  let ?removed = "takeWhile ?P (loadRequests c)"
  note ch = purgeLoop_char [OF assms, of "now - timeLimit"]
  have q: "loadRequests ?c' = dropWhile ?P (loadRequests c)"
    and m: "tileMap ?c' = filter (\<lambda>(k, b). b \<notin> set ?removed) (tileMap c)"
    and t: "tiles ?c' = (\<lambda>b. if b \<in> set ?removed then dispose (tiles c b) else tiles c b)"
    using ch by (simp_all add: purgeNotLoadedTiles_def)
  have d: "distinct (loadRequests c)" using assms by (simp add: cache_inv_def)
  have diff: "set (loadRequests c) - set (loadRequests ?c') = set ?removed"
    unfolding q using d by (rule distinct_takeWhile_diff)
  have each: "requestTime (tiles c a) < now - timeLimit \<and>
       a \<notin> snd ` set (tileMap ?c') \<and>
       getTileFromCache (getKey (tiles c a)) ?c' = None \<and>
       image (tiles ?c' a) = None" if a: "a \<in> set ?removed" for a
  proof -
    from a have old: "requestTime (tiles c a) < now - timeLimit" by (auto dest: set_takeWhileD)
    from a have "a \<in> set (loadRequests c)" by (auto dest: set_takeWhileD)
    with assms have "a \<in> snd ` set (tileMap c)" by (simp add: cache_inv_def)
    with assms have entry: "(getKey (tiles c a), a) \<in> set (tileMap c)" by (rule inv_entry)
    have dk: "distinct (map fst (tileMap c))" using assms by (simp add: cache_inv_def)
    have gone: "a \<notin> snd ` set (tileMap ?c')" unfolding m using a by auto
    have "getKey (tiles c a) \<notin> fst ` set (tileMap ?c')"
    proof
      assume "getKey (tiles c a) \<in> fst ` set (tileMap ?c')"
      then obtain b where b: "(getKey (tiles c a), b) \<in> set (tileMap c)" and nb: "b \<notin> set ?removed"
        unfolding m by auto
      from dk b entry have "b = a" by (rule eq_key_imp_eq_value)
      with nb a show False by simp
    qed
    then have none: "getTileFromCache (getKey (tiles c a)) ?c' = None"
      by (simp add: getTileFromCache_def map_of_eq_None_iff)
    from a have "image (tiles ?c' a) = None" by (simp add: t)
    with old gone none show ?thesis by blast
  qed
  have mset: "set (tileMap ?c') = {(k, a) \<in> set (tileMap c). a \<notin> set ?removed}"
    unfolding m by auto
  have app: "loadRequests c = ?removed @ loadRequests ?c'" unfolding q by simp
  from each mset app show ?thesis unfolding diff by blast
qed

theorem purge_removes_only_stale_witness:
  "cache_inv (sortedTiles acceptAll) \<and>
   loadRequests (sortedTiles acceptAll) = [1, 0] \<and>
   loadRequests (purgeNotLoadedTiles 10 6 (sortedTiles acceptAll)) = [0] \<and>
   requestTime (tiles (sortedTiles acceptAll) 1) < 10 - 6 \<and>
   getTileFromCache (2, 1, 2) (purgeNotLoadedTiles 10 6 (sortedTiles acceptAll)) = None \<and>
   image (tiles (purgeNotLoadedTiles 10 6 (sortedTiles acceptAll)) 1) = None \<and>
   set (tileMap (purgeNotLoadedTiles 10 6 (sortedTiles acceptAll))) = {((2, 1, 1), 0)}"
proof -
  let ?c = "sortedTiles acceptAll"
  let ?c' = "purgeNotLoadedTiles 10 6 (sortedTiles acceptAll)"
  note th = purge_removes_only_stale [OF cache_inv_sortedTiles, of acceptAll 10 6]
  have mem: "1 \<in> set (loadRequests ?c) - set (loadRequests ?c')"
    by (simp add: purge_sortedTiles sortedTiles_fields)
  have k: "getKey (tiles ?c 1) = (2, 1, 2)"
    by (simp add: sortedTiles_fields createKey_def)
  from th mem have "requestTime (tiles ?c 1) < 10 - 6 \<and>
       getTileFromCache (getKey (tiles ?c 1)) ?c' = None \<and> image (tiles ?c' 1) = None"
    by blast
  then have one: "requestTime (tiles ?c 1) < 10 - 6 \<and>
       getTileFromCache (2, 1, 2) ?c' = None \<and> image (tiles ?c' 1) = None"
    by (simp only: k)
  from th have "set (tileMap ?c') =
      {(k, a) \<in> set (tileMap ?c). a \<notin> set (loadRequests ?c) - set (loadRequests ?c')}"
    by blast
  then have "set (tileMap ?c') = {((2, 1, 1), 0)}"
    by (auto simp: purge_sortedTiles sortedTiles_fields)
  with one cache_inv_sortedTiles purge_sortedTiles show ?thesis
    by (simp add: sortedTiles_fields)
qed

subsection \<open>C7: the request time of a stored tile\<close>

text \<open>
  C7, as stated, fails: a request with an earlier time lowers the requestTime of a stored
  tile. Here the tile (2, 1, 1), requested at time 5, is requested again and bumped with
  time 4, and its requestTime is 4 afterwards.
\<close>

theorem requestTime_lowered:
  "getTileFromCache (createKey 2 1 1) (twoTiles acceptAll) = Some 0 \<and>
   requestTime (tiles (twoTiles acceptAll) 0) = 5 \<and>
   requestTime (tiles (snd (retrieveTile 2 1 1 4 (twoTiles acceptAll))) 0) = 4 \<and>
   requestTime (tiles (updateRequestTime (createKey 2 1 1) 4 (twoTiles acceptAll)) 0) = 4"
  by (simp add: getTileFromCache_def createKey_def twoTiles_fields retrieveTile_def
      updateRequestTime_def)

text \<open>
  C7, amended. \<^verbatim>\<open>retrieveTile\<close> on a key that is in the store and
  \<^verbatim>\<open>updateRequestTime\<close> on such a key set the tile's requestTime to the time that is
  passed and leave every other tile as it is; so the requestTime does not decrease when the
  time passed is at least the tile's current requestTime.
\<close>

theorem requestTime_overwritten:
  assumes "getTileFromCache (createKey z x y) c = Some a"
  shows "requestTime (tiles (snd (retrieveTile z x y rt c)) a) = rt \<and>
         requestTime (tiles (updateRequestTime (createKey z x y) rt c) a) = rt \<and>
         (\<forall>b. b \<noteq> a \<longrightarrow> tiles (snd (retrieveTile z x y rt c)) b = tiles c b \<and>
               tiles (updateRequestTime (createKey z x y) rt c) b = tiles c b) \<and>
         (requestTime (tiles c a) \<le> rt \<longrightarrow>
            requestTime (tiles c a) \<le> requestTime (tiles (snd (retrieveTile z x y rt c)) a) \<and>
            requestTime (tiles c a) \<le>
              requestTime (tiles (updateRequestTime (createKey z x y) rt c) a))"
  using assms by (simp add: retrieveTile_def updateRequestTime_def Let_def)

theorem requestTime_overwritten_witness:
  "getTileFromCache (createKey 2 1 1) (twoTiles acceptAll) = Some 0 \<and>
   requestTime (tiles (twoTiles acceptAll) 0) \<le> 9 \<and>
   requestTime (tiles (snd (retrieveTile 2 1 1 9 (twoTiles acceptAll))) 0) = 9 \<and>
   requestTime (tiles (updateRequestTime (createKey 2 1 1) 9 (twoTiles acceptAll)) 0) = 9 \<and>
   tiles (snd (retrieveTile 2 1 1 9 (twoTiles acceptAll))) 1 = tiles (twoTiles acceptAll) 1"
proof -
  have h: "getTileFromCache (createKey 2 1 1) (twoTiles acceptAll) = Some 0"
    by (simp add: getTileFromCache_def createKey_def twoTiles_fields)
  from h requestTime_overwritten [OF h, of 9] show ?thesis
    by (simp add: twoTiles_fields)
qed

subsection \<open>C8: the queue and the store\<close>

text \<open>
  C8. Every sequence of the operations \<^verbatim>\<open>retrieveTile\<close>,
  \<^verbatim>\<open>updateRequestTime\<close>, \<^verbatim>\<open>cleanCache\<close>, \<^verbatim>\<open>purgeNotLoadedTiles\<close>,
  \<^verbatim>\<open>processLoadRequests\<close> and \<^verbatim>\<open>setTileProvider\<close> on a new cache runs to
  its end, and in the cache it reaches no tile occurs twice in the queue and every tile of
  the queue is the tile that the store holds under the tile's key and is in state
  Preparing.
\<close>

theorem queue_invariant:
  "\<exists>c. performAll ops (new_TileCache now tileprovider) = Inr c \<and>
       distinct (loadRequests c) \<and>
       (\<forall>a \<in> set (loadRequests c).
          getTileFromCache (getKey (tiles c a)) c = Some a \<and> state (tiles c a) = PREPARING)"
proof -
  from cache_inv_performAll [OF cache_inv_new]
  obtain c where run: "performAll ops (new_TileCache now tileprovider) = Inr c"
    and inv: "cache_inv c" by blast
  from inv have "distinct (loadRequests c)" by (simp add: cache_inv_def)
  moreover have "\<forall>a \<in> set (loadRequests c).
      getTileFromCache (getKey (tiles c a)) c = Some a \<and> state (tiles c a) = PREPARING"
    using inv by (auto simp: cache_inv_def intro!: inv_lookup)
  ultimately show ?thesis using run by blast
qed

theorem queue_invariant_witness:
  "performAll [RetrieveTile 2 1 1 5, RetrieveTile 2 1 2 3, ProcessLoadRequests 1]
     (new_TileCache 0 acceptAll) = Inr dispatchedTiles \<and>
   loadRequests dispatchedTiles = [1] \<and>
   distinct (loadRequests dispatchedTiles) \<and>
   getTileFromCache (getKey (tiles dispatchedTiles 1)) dispatchedTiles = Some 1 \<and>
   state (tiles dispatchedTiles 1) = PREPARING"
proof -
  from queue_invariant
    [of "[RetrieveTile 2 1 1 5, RetrieveTile 2 1 2 3, ProcessLoadRequests 1]" 0 acceptAll]
  obtain c where run: "performAll [RetrieveTile 2 1 1 5, RetrieveTile 2 1 2 3,
      ProcessLoadRequests 1] (new_TileCache 0 acceptAll) = Inr c"
    and d: "distinct (loadRequests c)"
    and q: "\<forall>a \<in> set (loadRequests c).
      getTileFromCache (getKey (tiles c a)) c = Some a \<and> state (tiles c a) = PREPARING"
    by blast
  from run have c: "c = dispatchedTiles" by (simp only: run_dispatchedTiles sum.inject)
  have l: "loadRequests dispatchedTiles = [1]" by (simp add: dispatchedTiles_fields)
  have 1: "distinct (loadRequests dispatchedTiles)" using d unfolding c .
  from q have "\<forall>a \<in> set [1].
      getTileFromCache (getKey (tiles dispatchedTiles a)) dispatchedTiles = Some a \<and>
      state (tiles dispatchedTiles a) = PREPARING"
    unfolding c l .
  then have 2: "getTileFromCache (getKey (tiles dispatchedTiles 1)) dispatchedTiles = Some 1 \<and>
      state (tiles dispatchedTiles 1) = PREPARING"
    by simp
  from run_dispatchedTiles l 1 2 show ?thesis by blast
qed

subsection \<open>C9: updateRequestTime on an absent key\<close>

text \<open>
  C9. \<^verbatim>\<open>updateRequestTime\<close> called with a key that is not in the store changes
  nothing: the cache after the call is the cache before it, with the same map, the same
  queue and the same tiles.
\<close>

theorem updateRequestTime_absent_noop:
  "getTileFromCache k c = None \<Longrightarrow> updateRequestTime k rt c = c"
  by (simp add: updateRequestTime_def)

theorem updateRequestTime_absent_noop_witness:
  "getTileFromCache (2, 1, 3) (twoTiles acceptAll) = None \<and>
   updateRequestTime (2, 1, 3) 7 (twoTiles acceptAll) = twoTiles acceptAll"
proof -
  have h: "getTileFromCache (2, 1, 3) (twoTiles acceptAll) = None"
    by (simp add: getTileFromCache_def twoTiles_fields)
  from h updateRequestTime_absent_noop [OF h, of 7] show ?thesis by simp
qed

subsection \<open>C10: a declined tile is offered again\<close>

text \<open>
  C10. When the provider declines the tile popped from the tail, the iteration leaves the
  queue as it was, with that tile at the tail; so in the calls of one round, the call
  after a declined one offers the same tile. With a provider that declines every tile, a
  round makes its \<open>n\<close> calls for one tile, the last of the sorted queue, whose
  requestTime is the highest, and the queue afterwards is the sorted queue.
\<close>

theorem declined_tile_reoffered:
  "(loadRequests c \<noteq> [] \<and> \<not> fst (loadTile (tileProvider c) (tiles c) (last (loadRequests c))) \<longrightarrow>
      loadRequests (loadStep c) = loadRequests c) \<and>
   (\<exists>c' calls. processLoadRequests m c = Inr c' \<and> loadCalls c' = loadCalls c @ calls \<and>
      length calls = nat (roundSize m c) \<and>
      (\<forall>pre a x post. calls = pre @ (a, False) # x # post \<longrightarrow> fst x = a) \<and>
      ((\<forall>ps t. \<not> fst (loadFn (tileProvider c) ps t)) \<longrightarrow>
         calls = replicate (nat (roundSize m c)) (last (sortedRequests c), False) \<and>
         loadRequests c' = sortedRequests c \<and>
         (\<forall>b \<in> set (loadRequests c).
            requestTime (tiles c b) \<le> requestTime (tiles c (last (sortedRequests c))))))"
proof -
  let ?c1 = "c\<lparr>loadRequests := sortedRequests c\<rparr>"
  let ?n = "nat (roundSize m c)"
  let ?c' = "(loadStep ^^ ?n) ?c1"
  let ?calls = "callsOf ?n ?c1"
  have pushed: "loadRequests c \<noteq> [] \<and>
      \<not> fst (loadTile (tileProvider c) (tiles c) (last (loadRequests c))) \<longrightarrow>
      loadRequests (loadStep c) = loadRequests c"
    by (simp add: loadStep_loadRequests nextAnswer_def loadTile_def case_prod_unfold)
  have le: "?n \<le> length (loadRequests ?c1)" by (rule roundSize_le)
  have run: "processLoadRequests m c = Inr ?c'" by (rule processLoadRequests_round)
  have log: "loadCalls ?c' = loadCalls c @ ?calls" by (simp add: funpow_loadStep_loadCalls)
  have len: "length ?calls = ?n" by simp
  have again: "\<forall>pre a x post. ?calls = pre @ (a, False) # x # post \<longrightarrow> fst x = a"
    using callsOf_reoffer [OF le] by blast
  have pers: "?calls = replicate ?n (last (sortedRequests c), False) \<and>
         loadRequests ?c' = sortedRequests c \<and>
         (\<forall>b \<in> set (loadRequests c).
            requestTime (tiles c b) \<le> requestTime (tiles c (last (sortedRequests c))))"
    if no: "\<forall>ps t. \<not> fst (loadFn (tileProvider c) ps t)"
  proof -
    have "\<forall>ps t. \<not> fst (loadFn (tileProvider ?c1) ps t)" using no by simp
    moreover have "loadRequests ?c1 \<noteq> [] \<or> ?n = 0"
    proof (cases "loadRequests ?c1 = []")
      case True
      with le have "?n \<le> 0" by (simp only: list.size)
      then show ?thesis by simp
    next
      case False
      then show ?thesis ..
    qed
    ultimately have "?calls = replicate ?n (last (loadRequests ?c1), False) \<and>
         loadRequests ?c' = loadRequests ?c1"
      by (rule callsOf_declining)
    moreover have "\<forall>b \<in> set (loadRequests c).
        requestTime (tiles c b) \<le> requestTime (tiles c (last (sortedRequests c)))"
      using last_sorted_greatest [OF sorted_sortedRequests, of _ c] by auto
    ultimately show ?thesis by simp
  qed
  from pushed run log len again pers show ?thesis by blast
qed

theorem declined_tile_reoffered_witness:
  "loadRequests (twoTiles declineAll) \<noteq> [] \<and>
   \<not> fst (loadTile (tileProvider (twoTiles declineAll)) (tiles (twoTiles declineAll))
           (last (loadRequests (twoTiles declineAll)))) \<and>
   loadRequests (loadStep (twoTiles declineAll)) = loadRequests (twoTiles declineAll) \<and>
   processLoadRequests 2 (twoTiles declineAll) = Inr refusedTwice \<and>
   loadCalls refusedTwice = loadCalls (twoTiles declineAll) @ [(0, False), (0, False)] \<and>
   fst (0 :: nat, False) = 0 \<and>
   loadRequests refusedTwice = sortedRequests (twoTiles declineAll)"
proof -
  let ?c = "twoTiles declineAll"
  note th = declined_tile_reoffered [of ?c 2]
  have ne: "loadRequests ?c \<noteq> []" by (simp add: twoTiles_fields)
  have no: "\<not> fst (loadTile (tileProvider ?c) (tiles ?c) (last (loadRequests ?c)))"
    by (simp add: loadTile_def twoTiles_fields declineAll_def)
  from th ne no have pushed: "loadRequests (loadStep ?c) = loadRequests ?c" by blast
  from th obtain c' calls where run: "processLoadRequests 2 ?c = Inr c'"
    and log: "loadCalls c' = loadCalls ?c @ calls"
    and again: "\<forall>pre a x post. calls = pre @ (a, False) # x # post \<longrightarrow> fst x = a"
    and pers: "(\<forall>ps t. \<not> fst (loadFn (tileProvider ?c) ps t)) \<longrightarrow>
         calls = replicate (nat (roundSize 2 ?c)) (last (sortedRequests ?c), False) \<and>
         loadRequests c' = sortedRequests ?c"
    by blast
  have always: "\<forall>ps t. \<not> fst (loadFn (tileProvider ?c) ps t)"
    by (simp add: twoTiles_fields declineAll_def)
  have n: "nat (roundSize 2 ?c) = Suc (Suc 0)" by (simp add: roundSize_twoTiles)
  from pers always have calls: "calls = [(0, False), (0, False)]"
    and q: "loadRequests c' = sortedRequests ?c"
    by (simp_all add: n sortedRequests_twoTiles)
  from run have c': "c' = refusedTwice" by (simp only: round_refusedTwice sum.inject)
  from again [rule_format, of "[]" 0 "(0, False)" "[]"] calls
  have same: "fst (0 :: nat, False) = 0" by simp
  have 1: "processLoadRequests 2 ?c = Inr refusedTwice" using run unfolding c' .
  have 2: "loadCalls refusedTwice = loadCalls ?c @ [(0, False), (0, False)]"
    using log unfolding c' calls .
  have 3: "loadRequests refusedTwice = sortedRequests ?c" using q unfolding c' .
  from ne no pushed 1 2 same 3 show ?thesis by blast
qed

end
